theory Spec2Isabelle
  imports Main "HOL-Library.Word"
begin

section \<open>Common types\<close>

text \<open>
  Go's \<open>byte\<close> is an unsigned 8-bit integer and \<open>[]byte\<close> a sequence of them.
  \<open>time.Time\<close> values are instants; they are modelled as integers (nanoseconds),
  and every operation that reads \<open>time.Now()\<close> takes the instant as its
  argument \<open>now\<close>. \<open>time.Duration\<close> is an integer number of nanoseconds.
\<close>

type_synonym byte = "8 word"
type_synonym time = int
type_synonym duration = int

section \<open>Terminal state (package monitor)\<close>

record TerminalState =
  title :: "byte list"
  focused :: bool
  lastFocusChange :: time
  focusReportingEnabled :: bool

definition NewTerminalState :: "time \<Rightarrow> TerminalState" where
  "NewTerminalState now =
     \<lparr>title = [], focused = True, lastFocusChange = now, focusReportingEnabled = False\<rparr>"

definition SetTitle :: "byte list \<Rightarrow> TerminalState \<Rightarrow> TerminalState" where
  "SetTitle t ts = ts\<lparr>title := t\<rparr>"

definition SetFocused :: "time \<Rightarrow> bool \<Rightarrow> TerminalState \<Rightarrow> TerminalState" where
  "SetFocused now f ts =
     (if focused ts \<noteq> f then ts\<lparr>focused := f, lastFocusChange := now\<rparr> else ts)"

definition SetFocusReportingEnabled :: "bool \<Rightarrow> TerminalState \<Rightarrow> TerminalState" where
  "SetFocusReportingEnabled enabled ts = ts\<lparr>focusReportingEnabled := enabled\<rparr>"

section \<open>Escape sequence classifier (package monitor, \<open>containsVisibleContent\<close>)\<close>

text \<open>
  The scan is modelled with the index \<open>i\<close> of the source. Every read \<open>data[i]\<close>
  goes through \<open>byteAt\<close>, which is \<open>None\<close> out of range, where Go panics
  with an index-out-of-range error; a \<open>None\<close> result of the scan therefore stands
  for a panic. The two inner loops that skip to a CSI final byte (one after
  \<open>ESC [\<close>, one after \<open>0x9B\<close>) have the same body and are one function,
  \<open>skipCSI\<close>; \<open>skipOSC\<close> is the inner loop after \<open>ESC ]\<close>. Both return the
  index at which the outer loop continues.
\<close>

definition byteAt :: "byte list \<Rightarrow> nat \<Rightarrow> byte option" where
  "byteAt data i = (if i < length data then Some (data ! i) else None)"

definition isFinalByte :: "byte \<Rightarrow> bool" where
  "isFinalByte c = (0x40 \<le> c \<and> c \<le> 0x7E)"

definition visibleByte :: "byte \<Rightarrow> bool" where
  "visibleByte b =
     (if b = 0x0A \<or> b = 0x0D \<or> b = 0x09 then True
      else if 32 \<le> b \<and> b \<le> 126 then True
      else if 128 \<le> b then True
      else False)"

function skipCSI :: "byte list \<Rightarrow> nat \<Rightarrow> nat option" where
  "skipCSI data i =
     (if i < length data then
        (case byteAt data i of
           None \<Rightarrow> None
         | Some c \<Rightarrow> if isFinalByte c then Some (i + 1) else skipCSI data (i + 1))
      else Some i)"
  by pat_completeness auto
termination
  by (relation "measure (\<lambda>(data, i). length data - i)") auto

declare skipCSI.simps [simp del]

function skipOSC :: "byte list \<Rightarrow> nat \<Rightarrow> nat option" where
  "skipOSC data i =
     (if i < length data then
        (case byteAt data i of
           None \<Rightarrow> None
         | Some c \<Rightarrow>
             if c = 0x07 then Some (i + 1)
             else if c = 0x1B \<and> i + 1 < length data then
               (case byteAt data (i + 1) of
                  None \<Rightarrow> None
                | Some d \<Rightarrow> if d = 0x5C then Some (i + 2) else skipOSC data (i + 1))
             else skipOSC data (i + 1))
      else Some i)"
  by pat_completeness auto
termination
  by (relation "measure (\<lambda>(data, i). length data - i)") auto

declare skipOSC.simps [simp del]

lemma skipCSI_bounds:
  "skipCSI data i = Some j \<Longrightarrow>
     i \<le> j \<and> j \<le> max i (length data) \<and> (i < length data \<longrightarrow> i < j)"
proof (induction data i arbitrary: j rule: skipCSI.induct)
  case (1 data i)
  show ?case
  proof (cases "i < length data")
    case False
    with "1.prems" show ?thesis by (simp add: skipCSI.simps [of data i])
  next
    case True
    then have at: "byteAt data i = Some (data ! i)" by (simp add: byteAt_def)
    show ?thesis
    proof (cases "isFinalByte (data ! i)")
      case True
      with \<open>i < length data\<close> at "1.prems" show ?thesis
        by (auto simp add: skipCSI.simps [of data i])
    next
      case False
      with \<open>i < length data\<close> at "1.prems" have r: "skipCSI data (i + 1) = Some j"
        by (simp add: skipCSI.simps [of data i])
      from "1.IH" [OF \<open>i < length data\<close> at False r] \<open>i < length data\<close>
      show ?thesis by auto
    qed
  qed
qed

lemma skipOSC_bounds:
  "skipOSC data i = Some j \<Longrightarrow>
     i \<le> j \<and> j \<le> max i (length data) \<and> (i < length data \<longrightarrow> i < j)"
proof (induction data i arbitrary: j rule: skipOSC.induct)
  case (1 data i)
  show ?case
  proof (cases "i < length data")
    case False
    with "1.prems" show ?thesis by (simp add: skipOSC.simps [of data i])
  next
    case True
    then have at: "byteAt data i = Some (data ! i)" by (simp add: byteAt_def)
    show ?thesis
    proof (cases "data ! i = 0x07")
      case True
      with \<open>i < length data\<close> at "1.prems" show ?thesis
        by (auto simp add: skipOSC.simps [of data i])
    next
      case nb: False
      show ?thesis
      proof (cases "data ! i = 0x1B \<and> i + 1 < length data")
        case esc: True
        then have at1: "byteAt data (i + 1) = Some (data ! (i + 1))" by (simp add: byteAt_def)
        show ?thesis
        proof (cases "data ! (i + 1) = 0x5C")
          case True
          with \<open>i < length data\<close> at at1 nb esc "1.prems"
          show ?thesis by (auto simp add: skipOSC.simps [of data i])
        next
          case False
          with \<open>i < length data\<close> at at1 nb esc "1.prems"
          have r: "skipOSC data (i + 1) = Some j" by (simp add: skipOSC.simps [of data i])
          from "1.IH"(1) [OF \<open>i < length data\<close> at nb esc at1 False r] esc
          show ?thesis by auto
        qed
      next
        case False
        with \<open>i < length data\<close> at nb "1.prems"
        have r: "skipOSC data (i + 1) = Some j"
          by (simp add: skipOSC.simps [of data i] del: One_nat_def)
        from "1.IH"(2) [OF \<open>i < length data\<close> at nb False r] \<open>i < length data\<close>
        show ?thesis by auto
      qed
    qed
  qed
qed

function scanFrom :: "byte list \<Rightarrow> nat \<Rightarrow> bool option" where
  "scanFrom data i =
     (if i < length data then
        (case byteAt data i of
           None \<Rightarrow> None
         | Some b \<Rightarrow>
             if b = 0x1B then
               (if i + 1 < length data then
                  (case byteAt data (i + 1) of
                     None \<Rightarrow> None
                   | Some next \<Rightarrow>
                       if next = 0x5B then
                         (case skipCSI data (i + 2) of
                            None \<Rightarrow> None
                          | Some j \<Rightarrow> scanFrom data j)
                       else if next = 0x5D then
                         (case skipOSC data (i + 2) of
                            None \<Rightarrow> None
                          | Some j \<Rightarrow> scanFrom data j)
                       else if next = 0x28 \<or> next = 0x29 then
                         scanFrom data (if i + 2 < length data then i + 3 else i + 2)
                       else if visibleByte b then Some True
                       else scanFrom data (i + 2))
                else if visibleByte b then Some True
                else scanFrom data (i + 2))
             else if b = 0x9B then
               (case skipCSI data (i + 1) of
                  None \<Rightarrow> None
                | Some j \<Rightarrow> scanFrom data j)
             else if visibleByte b then Some True
             else scanFrom data (i + 1))
      else Some False)"
  by pat_completeness auto
termination
  apply (relation "measure (\<lambda>(data, i). length data - i)")
  apply simp
  subgoal for data i b nxt j using skipCSI_bounds [of data "i + 2" j] by auto
  subgoal for data i b nxt j using skipOSC_bounds [of data "i + 2" j] by auto
  subgoal by auto
  subgoal by auto
  subgoal by auto
  subgoal for data i b j using skipCSI_bounds [of data "i + 1" j] by auto
  subgoal by auto
  done

declare scanFrom.simps [simp del]

definition containsVisibleContent :: "byte list \<Rightarrow> bool option" where
  "containsVisibleContent data = scanFrom data 0"

subsection \<open>The scan as a function of the remaining bytes\<close>

text \<open>
  The same scan, stated on the suffix \<open>drop i data\<close> that is still to be read:
  \<open>dropCSI\<close> and \<open>dropOSC\<close> return what the inner loops leave unread. It is
  proved equal to the index-based scan below and is used only in proofs.
\<close>

fun dropCSI :: "byte list \<Rightarrow> byte list" where
  "dropCSI [] = []"
| "dropCSI (c # cs) = (if isFinalByte c then cs else dropCSI cs)"

fun dropOSC :: "byte list \<Rightarrow> byte list" where
  "dropOSC [] = []"
| "dropOSC (c # cs) =
     (if c = 0x07 then cs
      else if c = 0x1B \<and> cs \<noteq> [] \<and> hd cs = 0x5C then tl cs
      else dropOSC cs)"

lemma length_dropCSI: "length (dropCSI xs) \<le> length xs"
  by (induction xs) auto

lemma length_dropOSC: "length (dropOSC xs) \<le> length xs"
  by (induction xs) auto

function visibleFrom :: "byte list \<Rightarrow> bool" where
  "visibleFrom [] = False"
| "visibleFrom (b # rest) =
     (if b = 0x1B then
        (case rest of
           [] \<Rightarrow> False
         | nxt # rest' \<Rightarrow>
             if nxt = 0x5B then visibleFrom (dropCSI rest')
             else if nxt = 0x5D then visibleFrom (dropOSC rest')
             else if nxt = 0x28 \<or> nxt = 0x29 then visibleFrom (drop 1 rest')
             else visibleFrom rest')
      else if b = 0x9B then visibleFrom (dropCSI rest)
      else visibleByte b \<or> visibleFrom rest)"
  by pat_completeness auto
termination
  apply (relation "measure length")
  apply simp
  subgoal for b rest nxt rest' using length_dropCSI [of rest'] by simp
  subgoal for b rest nxt rest' using length_dropOSC [of rest'] by simp
  subgoal by simp
  subgoal by simp
  subgoal for b rest using length_dropCSI [of rest] by simp
  subgoal by simp
  done

declare visibleFrom.simps(2) [simp del]

subsection \<open>The recognised sequences, as the specification lists them\<close>

text \<open>
  A CSI sequence is \<open>ESC [\<close> (or the single byte \<open>0x9B\<close>), any bytes that are not
  final bytes, and one final byte \<open>0x40..0x7E\<close>; an OSC sequence is \<open>ESC ]\<close>, a
  body, and the first terminator \<open>BEL\<close> or \<open>ESC \\\<close>; a character-set
  designation is \<open>ESC (\<close> or \<open>ESC )\<close> and one more byte. \<open>recognizedSequence s\<close>
  says that \<open>s\<close> is exactly one such sequence.

  \<open>skippedToken\<close> adds the other units that the scan is meant to pass over: a
  single byte that is not visible (other than \<open>ESC\<close>), and a two-byte escape
  sequence, \<open>ESC\<close> and one final byte \<open>0x30..0x7E\<close> other than \<open>[\<close> and
  \<open>]\<close> (such as \<open>ESC c\<close>, \<open>ESC D\<close> and \<open>ESC M\<close> of the detector's
  tables, or \<open>ESC 7\<close>). An \<open>ESC\<close> followed by any other byte is not a token.
\<close>

fun csiTail :: "byte list \<Rightarrow> bool" where
  "csiTail [] = False"
| "csiTail (c # cs) = (if isFinalByte c then cs = [] else csiTail cs)"

fun oscTail :: "byte list \<Rightarrow> bool" where
  "oscTail [] = False"
| "oscTail (c # cs) =
     (if c = 0x07 then cs = []
      else if c = 0x1B \<and> take 1 cs = [0x5C] then cs = [0x5C]
      else oscTail cs)"

definition recognizedSequence :: "byte list \<Rightarrow> bool" where
  "recognizedSequence s =
     ((take 2 s = [0x1B, 0x5B] \<and> csiTail (drop 2 s)) \<or>
      (take 2 s = [0x1B, 0x5D] \<and> oscTail (drop 2 s)) \<or>
      (length s = 3 \<and> (take 2 s = [0x1B, 0x28] \<or> take 2 s = [0x1B, 0x29])) \<or>
      (take 1 s = [0x9B] \<and> csiTail (drop 1 s)))"

definition skippedToken :: "byte list \<Rightarrow> bool" where
  "skippedToken t =
     (recognizedSequence t \<or>
      (length t = 1 \<and> \<not> visibleByte (hd t) \<and> hd t \<noteq> 0x1B) \<or>
      (length t = 2 \<and> hd t = 0x1B \<and>
         0x30 \<le> t ! 1 \<and> t ! 1 \<le> 0x7E \<and> t ! 1 \<noteq> 0x5B \<and> t ! 1 \<noteq> 0x5D))"

section \<open>Terminal sequence detector (package monitor)\<close>

text \<open>
  \<open>bytes.Contains b sub\<close> of the Go library: \<open>sub\<close> occurs in \<open>b\<close> as a
  contiguous run.
\<close>

fun hasPrefix :: "byte list \<Rightarrow> byte list \<Rightarrow> bool" where
  "hasPrefix s [] = True"
| "hasPrefix [] (p # ps) = False"
| "hasPrefix (x # xs) (p # ps) = (x = p \<and> hasPrefix xs ps)"

fun Contains :: "byte list \<Rightarrow> byte list \<Rightarrow> bool" where
  "Contains [] sub = (sub = [])"
| "Contains (x # xs) sub = (hasPrefix (x # xs) sub \<or> Contains xs sub)"

text \<open>
  The tables of the source, byte for byte: \<open>\033\<close> is \<open>0x1B\<close>, \<open>[\<close> is
  \<open>0x5B\<close>.
\<close>

definition screenClearSequences :: "byte list list" where
  "screenClearSequences =
     [[0x1B, 0x5B, 0x32, 0x4A],
      [0x1B, 0x5B, 0x33, 0x4A],
      [0x1B, 0x5B, 0x48],
      [0x1B, 0x5B, 0x30, 0x4A],
      [0x1B, 0x5B, 0x31, 0x4A],
      [0x1B, 0x63]]"

definition statusInterferingSequences :: "byte list list" where
  "statusInterferingSequences =
     [[0x1B, 0x5B, 0x72],
      [0x1B, 0x5B, 0x3F, 0x34, 0x37, 0x68],
      [0x1B, 0x5B, 0x3F, 0x31, 0x30, 0x34, 0x37, 0x68],
      [0x1B, 0x5B, 0x3F, 0x31, 0x30, 0x34, 0x39, 0x68],
      [0x1B, 0x5B, 0x3F, 0x34, 0x37, 0x6C],
      [0x1B, 0x5B, 0x3F, 0x31, 0x30, 0x34, 0x37, 0x6C],
      [0x1B, 0x5B, 0x3F, 0x31, 0x30, 0x34, 0x39, 0x6C],
      [0x1B, 0x44],
      [0x1B, 0x4D],
      [0x1B, 0x5B, 0x53],
      [0x1B, 0x5B, 0x54]]"

definition focusInSequence :: "byte list" where
  "focusInSequence = [0x1B, 0x5B, 0x49]"

definition focusOutSequence :: "byte list" where
  "focusOutSequence = [0x1B, 0x5B, 0x4F]"

subsection \<open>The title pattern\<close>

text \<open>
  \<open>titlePattern\<close> is the regular expression
  \<^verbatim>\<open>\033\](?:0|1|2);([^\007\033]*?)(?:\007|\033\\)\<close>.
  The class of the group excludes both bytes with which a terminator can begin, so
  at a given start the expression matches in at most one way: the four bytes
  \<open>ESC ] d ;\<close> with \<open>d\<close> one of \<open>0 1 2\<close>, the longest run of bytes other
  than \<open>BEL\<close> and \<open>ESC\<close>, and then \<open>BEL\<close> or \<open>ESC \\<close>. \<open>matchTitleAt s\<close> is
  that match at the start of \<open>s\<close>: the group and what follows the match.
  \<open>FindAllSubmatch\<close> returns the successive non-overlapping matches, leftmost
  first; \<open>findTitles\<close> lists their groups. (The library reads the input as UTF-8;
  \<open>BEL\<close> and \<open>ESC\<close> are never part of a longer encoded character, and a byte
  that is not valid UTF-8 is matched by the class as one character, so the match
  is the same byte by byte.)
\<close>

definition notTitleEnd :: "byte \<Rightarrow> bool" where
  "notTitleEnd x = (x \<noteq> 0x07 \<and> x \<noteq> 0x1B)"

definition matchTitleAt :: "byte list \<Rightarrow> (byte list \<times> byte list) option" where
  "matchTitleAt s =
     (case s of
        a # b # c # d # r \<Rightarrow>
          if a = 0x1B \<and> b = 0x5D \<and> (c = 0x30 \<or> c = 0x31 \<or> c = 0x32) \<and> d = 0x3B then
            (case dropWhile notTitleEnd r of
               [] \<Rightarrow> None
             | t # u \<Rightarrow>
                 if t = 0x07 then Some (takeWhile notTitleEnd r, u)
                 else (case u of
                         [] \<Rightarrow> None
                       | v # w \<Rightarrow>
                           if v = 0x5C then Some (takeWhile notTitleEnd r, w) else None))
          else None
      | _ \<Rightarrow> None)"

lemma matchTitleAt_shorter:
  assumes "matchTitleAt s = Some (t, rest)"
  shows "length rest < length s"
proof -
  from assms obtain a b c d r where s: "s = a # b # c # d # r"
    by (auto simp: matchTitleAt_def split: list.splits)
  have le: "length (dropWhile notTitleEnd r) \<le> length r" by (rule length_dropWhile_le)
  from assms s have "length rest < length (dropWhile notTitleEnd r)"
    by (auto simp: matchTitleAt_def split: list.splits if_splits)
  with le s show ?thesis by simp
qed

function findTitles :: "byte list \<Rightarrow> byte list list" where
  "findTitles [] = []"
| "findTitles (x # xs) =
     (case matchTitleAt (x # xs) of
        Some (t, rest) \<Rightarrow> t # findTitles rest
      | None \<Rightarrow> findTitles xs)"
  by pat_completeness auto
termination
  by (relation "measure length") (auto dest: matchTitleAt_shorter)

subsection \<open>The bottom-line heuristic\<close>

text \<open>
  \<open>detectBottomLineClear\<close> with its three loops over the indices \<open>i\<close>, \<open>j\<close>
  and \<open>k\<close>. The bounds \<open>len(data)-5\<close> and \<open>len(data)-2\<close> are signed in Go and
  may be negative, so they are compared as integers. Every read is guarded by its
  loop condition (\<open>i + 1 < len\<close>, \<open>j < len\<close>, \<open>k + 2 < len\<close>,
  \<open>k + 3 < len\<close>), so \<open>!\<close> is only applied in range.
\<close>

function findCursorEnd :: "byte list \<Rightarrow> nat \<Rightarrow> nat" where
  "findCursorEnd data j =
     (if j < length data \<and> data ! j \<noteq> 0x48 \<and> data ! j \<noteq> 0x66
      then findCursorEnd data (j + 1) else j)"
  by pat_completeness auto
termination
  by (relation "measure (\<lambda>(data, j). length data - j)") auto

declare findCursorEnd.simps [simp del]

function lineClearFollows :: "byte list \<Rightarrow> nat \<Rightarrow> nat \<Rightarrow> bool" where
  "lineClearFollows data j k =
     (if int k < int (length data) - 2 \<and> k < j + 20 then
        (if data ! k = 0x1B \<and> data ! (k + 1) = 0x5B \<and>
            (data ! (k + 2) = 0x4B \<or>
             (k + 3 < length data \<and> data ! (k + 2) = 0x32 \<and> data ! (k + 3) = 0x4B))
         then True
         else lineClearFollows data j (k + 1))
      else False)"
  by pat_completeness auto
termination
  by (relation "measure (\<lambda>(data, j, k). length data - k)") auto

declare lineClearFollows.simps [simp del]

function cursorThenClear :: "byte list \<Rightarrow> nat \<Rightarrow> bool" where
  "cursorThenClear data i =
     (if int i < int (length data) - 5 then
        (if data ! i = 0x1B \<and> data ! (i + 1) = 0x5B then
           (let j = findCursorEnd data (i + 2)
            in if j < length data \<and> (data ! j = 0x48 \<or> data ! j = 0x66) \<and>
                  lineClearFollows data j (j + 1)
               then True
               else cursorThenClear data (i + 1))
         else cursorThenClear data (i + 1))
      else False)"
  by pat_completeness auto
termination
  by (relation "measure (\<lambda>(data, i). length data - i)") auto

declare cursorThenClear.simps [simp del]

definition detectBottomLineClear :: "byte list \<Rightarrow> bool" where
  "detectBottomLineClear data =
     (if cursorThenClear data 0 then True
      else if Contains data [0x1B, 0x5B, 0x30, 0x4A] \<or> Contains data [0x1B, 0x5B, 0x4A]
      then True
      else False)"

subsection \<open>The detector\<close>

text \<open>
  The handler is an interface value whose four methods return nothing; a call of
  \<open>DetectSequences\<close> is modelled by the list of handler calls it makes, in
  order, and the new detector. \<open>nilHandler\<close> tells that the handler is \<open>nil\<close>.
\<close>

record TerminalSequenceDetector =
  buffer :: "byte list"
  reportingEnabled :: bool

datatype screenEvent = ScreenClear | FocusIn | FocusOut | TitleChange "byte list"

definition NewTerminalSequenceDetector :: TerminalSequenceDetector where
  "NewTerminalSequenceDetector = \<lparr>buffer = [], reportingEnabled = False\<rparr>"

definition maxBufferSize :: nat where
  "maxBufferSize = 512"

definition foundClear :: "byte list \<Rightarrow> bool" where
  "foundClear buf =
     (let found1 = list_ex (Contains buf) screenClearSequences;
          found2 = (if \<not> found1 then list_ex (Contains buf) statusInterferingSequences
                    else found1);
          found3 = (if \<not> found2 \<and> detectBottomLineClear buf then True else found2)
      in found3)"

definition handlerCalls :: "byte list \<Rightarrow> screenEvent list" where
  "handlerCalls buf =
     (if foundClear buf then [ScreenClear] else []) @
     (if Contains buf focusInSequence then [FocusIn] else []) @
     (if Contains buf focusOutSequence then [FocusOut] else []) @
     (case findTitles buf of [] \<Rightarrow> [] | m # ms \<Rightarrow> [TitleChange (last (m # ms))])"

definition DetectSequences ::
    "byte list \<Rightarrow> bool \<Rightarrow> TerminalSequenceDetector \<Rightarrow>
       screenEvent list \<times> TerminalSequenceDetector" where
  "DetectSequences data nilHandler t =
     (if nilHandler then ([], t)
      else
        (let buf = buffer t @ data
         in (handlerCalls buf,
             t\<lparr>buffer := (if maxBufferSize < length buf
                           then drop (length buf - maxBufferSize) buf else buf)\<rparr>)))"

text \<open>
  Successive calls on one detector, each with a handler: the handler calls of all
  of them in order, and the detector at the end.
\<close>

fun detectAll ::
    "byte list list \<Rightarrow> TerminalSequenceDetector \<Rightarrow>
       screenEvent list \<times> TerminalSequenceDetector" where
  "detectAll [] t = ([], t)"
| "detectAll (c # cs) t =
     (let (ev, t1) = DetectSequences c False t;
          (evs, t2) = detectAll cs t1
      in (ev @ evs, t2))"

section \<open>Backstop notification engine (package notification)\<close>

text \<open>
  The wrapped notifier \<open>underlying\<close> is an interface value; it is modelled by the
  list of notifications its \<open>Send\<close> has been called with, oldest first, so that a
  delivery is one more element of that list. The error it returns is discarded by
  \<open>sendBackstopNotification\<close> and passed through unchanged by \<open>Send\<close>; it
  plays no part in the engine's state and is not modelled.

  A \<open>*time.Timer\<close> made by \<open>time.AfterFunc\<close> is a deadline and a flag that tells
  whether it can still fire; \<open>Stop\<close> clears the flag. The field \<open>timer\<close> is
  \<open>None\<close> for Go's \<open>nil\<close>. The mutex serialises the methods, so each method is
  one atomic transition of the state.
\<close>

record Notification =
  Title :: string
  Message :: string
  Time :: time
  Pattern :: string

record Timer =
  deadline :: time
  pending :: bool

record BackstopNotifier =
  underlying :: "Notification list"
  timeout :: duration
  lastNotificationTime :: time
  lastActivityTime :: time
  lastUserInteraction :: time
  timer :: "Timer option"
  backstopSent :: bool
  backstopDisabled :: bool
  idleNotificationSentSinceLastInteraction :: bool

definition AfterFunc :: "time \<Rightarrow> duration \<Rightarrow> Timer" where
  "AfterFunc now d = \<lparr>deadline = now + d, pending = True\<rparr>"

definition stopTimer :: "Timer option \<Rightarrow> Timer option" where
  "stopTimer t = (case t of None \<Rightarrow> None | Some tm \<Rightarrow> Some (tm\<lparr>pending := False\<rparr>))"

definition startTimer :: "time \<Rightarrow> BackstopNotifier \<Rightarrow> BackstopNotifier" where
  "startTimer now bn =
     (if 0 < timeout bn then bn\<lparr>timer := Some (AfterFunc now (timeout bn))\<rparr> else bn)"

definition NewBackstopNotifier ::
    "Notification list \<Rightarrow> duration \<Rightarrow> time \<Rightarrow> BackstopNotifier" where
  "NewBackstopNotifier u d now =
     (let bn = \<lparr>underlying = u, timeout = d, lastNotificationTime = 0,
                 lastActivityTime = now, lastUserInteraction = now, timer = None,
                 backstopSent = False, backstopDisabled = False,
                 idleNotificationSentSinceLastInteraction = False\<rparr>
      in if 0 < d then startTimer now bn else bn)"

definition Send :: "time \<Rightarrow> Notification \<Rightarrow> BackstopNotifier \<Rightarrow> BackstopNotifier" where
  "Send now n bn =
     bn\<lparr>lastActivityTime := now,
        lastNotificationTime := now,
        backstopSent := False,
        timer := (if 0 < timeout bn then Some (AfterFunc now (timeout bn))
                  else stopTimer (timer bn)),
        underlying := underlying bn @ [n]\<rparr>"

definition MarkActivity :: "time \<Rightarrow> BackstopNotifier \<Rightarrow> BackstopNotifier" where
  "MarkActivity now bn =
     bn\<lparr>lastActivityTime := now,
        backstopSent := False,
        backstopDisabled := False,
        timer := (if 0 < timeout bn then Some (AfterFunc now (timeout bn))
                  else stopTimer (timer bn))\<rparr>"

definition sendBackstopNotification :: "time \<Rightarrow> BackstopNotifier \<Rightarrow> BackstopNotifier" where
  "sendBackstopNotification now bn =
     (if backstopSent bn \<or> backstopDisabled bn then bn
      else if idleNotificationSentSinceLastInteraction bn then bn
      else bn\<lparr>lastNotificationTime := now,
              backstopSent := True,
              idleNotificationSentSinceLastInteraction := True,
              underlying := underlying bn @
                [\<lparr>Title = ''Gemini needs attention'', Message = ''No activity detected'',
                  Time = now, Pattern = ''backstop''\<rparr>]\<rparr>)"

definition SetBackstopSent :: "bool \<Rightarrow> BackstopNotifier \<Rightarrow> BackstopNotifier" where
  "SetBackstopSent sent bn =
     bn\<lparr>backstopSent := sent,
        timer := (if sent then stopTimer (timer bn) else timer bn)\<rparr>"

definition ResetSession :: "time \<Rightarrow> BackstopNotifier \<Rightarrow> BackstopNotifier" where
  "ResetSession now bn =
     bn\<lparr>backstopSent := False,
        backstopDisabled := False,
        lastActivityTime := now,
        idleNotificationSentSinceLastInteraction := False,
        timer := (if 0 < timeout bn then Some (AfterFunc now (timeout bn))
                  else stopTimer (timer bn))\<rparr>"

definition DisableBackstopTimer :: "time \<Rightarrow> BackstopNotifier \<Rightarrow> BackstopNotifier" where
  "DisableBackstopTimer now bn =
     bn\<lparr>backstopDisabled := True,
        lastUserInteraction := now,
        idleNotificationSentSinceLastInteraction := False,
        timer := stopTimer (timer bn)\<rparr>"

definition Close :: "BackstopNotifier \<Rightarrow> BackstopNotifier" where
  "Close bn = bn\<lparr>timer := stopTimer (timer bn)\<rparr>"

subsection \<open>Engine events and runs\<close>

text \<open>
  An engine event is one call of a method, at the instant it carries. \<open>TimerFire\<close>
  is the runtime running the timer's callback \<open>sendBackstopNotification\<close>; the
  timer that ran can no longer fire. The transition is defined in every state, so
  that a run may also contain a callback that was already waiting for the mutex
  when its timer was stopped or replaced. \<open>timerDue now bn\<close> tells that the
  current timer is pending and its deadline has passed, which is when the runtime
  fires it.
\<close>

datatype event =
    EvSend time Notification
  | EvMarkActivity time
  | EvTimerFire time
  | EvSetBackstopSent bool
  | EvResetSession time
  | EvDisableBackstopTimer time
  | EvClose

fun step :: "event \<Rightarrow> BackstopNotifier \<Rightarrow> BackstopNotifier" where
  "step (EvSend now n) bn = Send now n bn"
| "step (EvMarkActivity now) bn = MarkActivity now bn"
| "step (EvTimerFire now) bn = sendBackstopNotification now (bn\<lparr>timer := stopTimer (timer bn)\<rparr>)"
| "step (EvSetBackstopSent sent) bn = SetBackstopSent sent bn"
| "step (EvResetSession now) bn = ResetSession now bn"
| "step (EvDisableBackstopTimer now) bn = DisableBackstopTimer now bn"
| "step EvClose bn = Close bn"

fun run :: "event list \<Rightarrow> BackstopNotifier \<Rightarrow> BackstopNotifier" where
  "run [] bn = bn"
| "run (ev # evs) bn = run evs (step ev bn)"

definition timerDue :: "time \<Rightarrow> BackstopNotifier \<Rightarrow> bool" where
  "timerDue now bn =
     (case timer bn of None \<Rightarrow> False | Some tm \<Rightarrow> pending tm \<and> deadline tm \<le> now)"

fun isTimerFire :: "event \<Rightarrow> bool" where
  "isTimerFire (EvTimerFire now) = True"
| "isTimerFire ev = False"

fun isUserInteraction :: "event \<Rightarrow> bool" where
  "isUserInteraction (EvDisableBackstopTimer now) = True"
| "isUserInteraction ev = False"

fun isSessionReset :: "event \<Rightarrow> bool" where
  "isSessionReset (EvResetSession now) = True"
| "isSessionReset ev = False"

text \<open>
  \<open>quietEvent\<close>: neither a user interaction nor a session reset.
  \<open>keepsBackstopSent\<close>: the events that do not write \<open>False\<close> to
  \<open>backstopSent\<close>, namely timer callbacks, user interactions, bells and closes.
\<close>

definition quietEvent :: "event \<Rightarrow> bool" where
  "quietEvent ev = (\<not> isUserInteraction ev \<and> \<not> isSessionReset ev)"

fun keepsBackstopSent :: "event \<Rightarrow> bool" where
  "keepsBackstopSent (EvTimerFire now) = True"
| "keepsBackstopSent (EvDisableBackstopTimer now) = True"
| "keepsBackstopSent (EvSetBackstopSent sent) = sent"
| "keepsBackstopSent EvClose = True"
| "keepsBackstopSent ev = False"

text \<open>
  The number of calls of \<open>underlying.Send\<close> that the timer callbacks of a run
  make: the deliveries of the backstop path.
\<close>

definition deliveredBy :: "event \<Rightarrow> BackstopNotifier \<Rightarrow> nat" where
  "deliveredBy ev bn = length (underlying (step ev bn)) - length (underlying bn)"

fun backstopDeliveries :: "event list \<Rightarrow> BackstopNotifier \<Rightarrow> nat" where
  "backstopDeliveries [] bn = 0"
| "backstopDeliveries (ev # evs) bn =
     (if isTimerFire ev then deliveredBy ev bn else 0) + backstopDeliveries evs (step ev bn)"

section \<open>Output monitor (package monitor)\<close>

text \<open>
  The monitor's notifier is an interface value on which the monitor tries the
  optional methods \<open>MarkActivity\<close>, \<open>SetBackstopSent\<close> and \<open>ResetSession\<close> by
  type assertion. The program installs either a \<open>BackstopNotifier\<close>, which has
  all three, or a notifier that has only \<open>Send\<close> (\<open>PlainN\<close>), on which every
  assertion fails. The screen event handler is the monitor itself after
  construction; \<open>SetScreenEventHandler\<close> may install another handler
  (\<open>OtherHandler\<close>, whose calls are recorded in \<open>otherHandlerCalls\<close>) or
  \<open>nil\<close>. \<open>lineBuffer\<close> is the content of the \<open>bytes.Buffer\<close>. In
  \<open>HandleData\<close> the slice \<open>buffer\<close> shares its array with the buffer that has
  just been reset; the only write to that array while \<open>buffer\<close> is in use is the
  final \<open>Write(buffer[start:])\<close>, a \<open>copy\<close> within the array, which Go defines
  for overlapping source and destination, so the buffer then holds
  \<open>buffer[start:]\<close>. Writes to standard error in debug mode are not modelled.
\<close>

datatype notifier = BackstopN BackstopNotifier | PlainN

datatype handlerRef = SelfHandler | OtherHandler

record OutputMonitor =
  notifier :: notifier
  lastOutputTime :: time
  lineBuffer :: "byte list"
  sequenceDetector :: "TerminalSequenceDetector option"
  screenEventHandler :: "handlerRef option"
  otherHandlerCalls :: "screenEvent list"
  terminalState :: TerminalState

definition NewOutputMonitor :: "notifier \<Rightarrow> time \<Rightarrow> OutputMonitor" where
  "NewOutputMonitor n now =
     \<lparr>notifier = n, lastOutputTime = now, lineBuffer = [],
      sequenceDetector = Some NewTerminalSequenceDetector,
      screenEventHandler = Some SelfHandler, otherHandlerCalls = [],
      terminalState = NewTerminalState now\<rparr>"

definition SetScreenEventHandler :: "handlerRef option \<Rightarrow> OutputMonitor \<Rightarrow> OutputMonitor" where
  "SetScreenEventHandler h om = om\<lparr>screenEventHandler := h\<rparr>"

definition SetNotifier :: "notifier \<Rightarrow> OutputMonitor \<Rightarrow> OutputMonitor" where
  "SetNotifier n om = om\<lparr>notifier := n\<rparr>"

definition HandleScreenClear :: "time \<Rightarrow> OutputMonitor \<Rightarrow> OutputMonitor" where
  "HandleScreenClear now om =
     (case notifier om of
        BackstopN bn \<Rightarrow> om\<lparr>notifier := BackstopN (ResetSession now bn)\<rparr>
      | PlainN \<Rightarrow> om)"

definition HandleTitleChange :: "byte list \<Rightarrow> OutputMonitor \<Rightarrow> OutputMonitor" where
  "HandleTitleChange t om = om\<lparr>terminalState := SetTitle t (terminalState om)\<rparr>"

definition HandleFocusIn :: "time \<Rightarrow> OutputMonitor \<Rightarrow> OutputMonitor" where
  "HandleFocusIn now om = om\<lparr>terminalState := SetFocused now True (terminalState om)\<rparr>"

definition HandleFocusOut :: "time \<Rightarrow> OutputMonitor \<Rightarrow> OutputMonitor" where
  "HandleFocusOut now om = om\<lparr>terminalState := SetFocused now False (terminalState om)\<rparr>"

text \<open>One handler call made by the detector, on the installed handler.\<close>

fun handlerCall :: "time \<Rightarrow> handlerRef \<Rightarrow> screenEvent \<Rightarrow> OutputMonitor \<Rightarrow> OutputMonitor" where
  "handlerCall now OtherHandler ev om = om\<lparr>otherHandlerCalls := otherHandlerCalls om @ [ev]\<rparr>"
| "handlerCall now SelfHandler ScreenClear om = HandleScreenClear now om"
| "handlerCall now SelfHandler FocusIn om = HandleFocusIn now om"
| "handlerCall now SelfHandler FocusOut om = HandleFocusOut now om"
| "handlerCall now SelfHandler (TitleChange t) om = HandleTitleChange t om"

definition processLine :: "byte list \<Rightarrow> OutputMonitor \<Rightarrow> OutputMonitor" where
  "processLine line om =
     (if Contains line [0x07] then
        (case notifier om of
           BackstopN bn \<Rightarrow> om\<lparr>notifier := BackstopN (SetBackstopSent True bn)\<rparr>
         | PlainN \<Rightarrow> om)
      else om)"

text \<open>
  The loop of \<open>HandleData\<close> that finds the complete lines: \<open>start\<close> and \<open>i\<close>
  are the loop's variables, \<open>buf\<close> is the source's \<open>buffer\<close>, and
  \<open>buffer[start:i]\<close> is \<open>slice buf start i\<close> (always with
  \<open>start \<le> i < len(buffer)\<close>). The action that the loop performs on
  each line is a parameter \<open>f\<close>: the source's loop is \<open>scanLines processLine\<close>,
  and \<open>scanLines logLine\<close> lists the lines that the loop passes to its action,
  in order.
\<close>

definition slice :: "byte list \<Rightarrow> nat \<Rightarrow> nat \<Rightarrow> byte list" where
  "slice b lo hi = take (hi - lo) (drop lo b)"

function scanLines ::
    "(byte list \<Rightarrow> 's \<Rightarrow> 's) \<Rightarrow> byte list \<Rightarrow> nat \<Rightarrow> nat \<Rightarrow> 's \<Rightarrow> nat \<times> 's" where
  "scanLines f buf start i s =
     (if i < length buf then
        (if buf ! i = 0x0A
         then scanLines f buf (i + 1) (i + 1) (f (slice buf start i) s)
         else scanLines f buf start (i + 1) s)
      else (start, s))"
  by pat_completeness auto
termination
  by (relation "measure (\<lambda>(f, buf, start, i, s). length buf - i)") auto

declare scanLines.simps [simp del]

definition logLine :: "byte list \<Rightarrow> byte list list \<Rightarrow> byte list list" where
  "logLine line ls = ls @ [line]"

definition markActivity :: "time \<Rightarrow> OutputMonitor \<Rightarrow> OutputMonitor" where
  "markActivity now om =
     (case notifier om of
        BackstopN bn \<Rightarrow> om\<lparr>notifier := BackstopN (MarkActivity now bn)\<rparr>
      | PlainN \<Rightarrow> om)"

text \<open>
  \<open>detectStep\<close> is the first statement of \<open>HandleData\<close>: the detector runs when
  both it and the handler are present, and its handler calls are made in order.
  \<open>HandleData\<close> is \<open>None\<close> only if the classifier panics.
\<close>

definition detectStep :: "time \<Rightarrow> byte list \<Rightarrow> OutputMonitor \<Rightarrow> OutputMonitor" where
  "detectStep now data om =
     (case sequenceDetector om of
        None \<Rightarrow> om
      | Some det \<Rightarrow>
          (case screenEventHandler om of
             None \<Rightarrow> om
           | Some h \<Rightarrow>
               (let (evs, det') = DetectSequences data False det
                in (fold (handlerCall now h) evs om)\<lparr>sequenceDetector := Some det'\<rparr>)))"

definition HandleData :: "time \<Rightarrow> byte list \<Rightarrow> OutputMonitor \<Rightarrow> OutputMonitor option" where
  "HandleData now data om =
     (let om1 = (detectStep now data om)\<lparr>lastOutputTime := now\<rparr>
      in case containsVisibleContent data of
           None \<Rightarrow> None
         | Some visible \<Rightarrow>
             (let om2 = (if visible then markActivity now om1 else om1);
                  buf = lineBuffer om2 @ data;
                  (start, om3) = scanLines processLine buf 0 0 (om2\<lparr>lineBuffer := []\<rparr>)
              in Some (if start < length buf
                       then om3\<lparr>lineBuffer := lineBuffer om3 @ drop start buf\<rparr>
                       else om3)))"

text \<open>
  The monitor as \<open>HandleData\<close> has it when its line loop starts: after the
  detector's handler calls, the new \<open>lastOutputTime\<close> and the activity mark,
  with the line buffer taken out and reset.
\<close>

definition beforeLineScan :: "time \<Rightarrow> byte list \<Rightarrow> OutputMonitor \<Rightarrow> OutputMonitor" where
  "beforeLineScan now data om =
     (let om1 = (detectStep now data om)\<lparr>lastOutputTime := now\<rparr>
      in (if containsVisibleContent data = Some True then markActivity now om1 else om1)
           \<lparr>lineBuffer := []\<rparr>)"

definition Flush :: "OutputMonitor \<Rightarrow> OutputMonitor" where
  "Flush om =
     (if 0 < length (lineBuffer om)
      then (processLine (lineBuffer om) om)\<lparr>lineBuffer := []\<rparr>
      else om)"

definition HandleLine :: "time \<Rightarrow> byte list \<Rightarrow> OutputMonitor \<Rightarrow> OutputMonitor option" where
  "HandleLine now line om = HandleData now (line @ [0x0A]) om"

text \<open>
  Successive \<open>HandleData\<close> calls, each with its instant and its chunk; and, for
  the same chunks, the lines that the calls pass to the bell scan, together with
  the line buffer that is left, starting from the line buffer \<open>buf\<close>.
\<close>

fun handleAll :: "(time \<times> byte list) list \<Rightarrow> OutputMonitor \<Rightarrow> OutputMonitor option" where
  "handleAll [] om = Some om"
| "handleAll ((now, data) # calls) om =
     (case HandleData now data om of
        None \<Rightarrow> None
      | Some om' \<Rightarrow> handleAll calls om')"

fun linesPassed :: "byte list list \<Rightarrow> byte list \<Rightarrow> byte list list \<times> byte list" where
  "linesPassed [] buf = ([], buf)"
| "linesPassed (data # chunks) buf =
     (let (start, ls) = scanLines logLine (buf @ data) 0 0 [];
          (ls', buf') = linesPassed chunks (drop start (buf @ data))
      in (ls @ ls', buf'))"

definition terminated :: "byte list \<Rightarrow> byte list" where
  "terminated line = line @ [0x0A]"

definition noNewline :: "byte list \<Rightarrow> bool" where
  "noNewline line = (0x0A \<notin> set line)"

section \<open>Properties of the terminal state\<close>

text \<open>
  C9. Calling \<open>SetFocused v\<close> when the focused value already equals \<open>v\<close> leaves the
  whole terminal state unchanged, in particular the last-focus-change timestamp;
  the timestamp is written (with the current instant) only when the focused value
  actually changes.
\<close>

theorem SetFocused_idempotent_frame:
  "(focused ts = v \<longrightarrow> SetFocused now v ts = ts) \<and>
   (focused ts \<noteq> v \<longrightarrow>
      lastFocusChange (SetFocused now v ts) = now \<and> focused (SetFocused now v ts) = v) \<and>
   (lastFocusChange (SetFocused now v ts) \<noteq> lastFocusChange ts \<longrightarrow> focused ts \<noteq> v)"
  by (simp add: SetFocused_def)

theorem SetFocused_idempotent_frame_witness:
  "focused (NewTerminalState 5) = True \<and>
   SetFocused 9 True (NewTerminalState 5) = NewTerminalState 5 \<and>
   focused (NewTerminalState 5) \<noteq> False \<and>
   lastFocusChange (SetFocused 9 False (NewTerminalState 5)) = 9 \<and>
   lastFocusChange (SetFocused 9 False (NewTerminalState 5))
     \<noteq> lastFocusChange (NewTerminalState 5)"
  using SetFocused_idempotent_frame [of "NewTerminalState 5" True 9]
        SetFocused_idempotent_frame [of "NewTerminalState 5" False 9]
  by (simp add: NewTerminalState_def)

section \<open>The classifier never panics and always returns\<close>

lemma skipCSI_total: "\<exists>j. skipCSI data i = Some j"
proof (induction data i rule: skipCSI.induct)
  case (1 data i)
  show ?case
  proof (cases "i < length data")
    case False
    then show ?thesis by (simp add: skipCSI.simps [of data i])
  next
    case True
    then have at: "byteAt data i = Some (data ! i)" by (simp add: byteAt_def)
    show ?thesis
    proof (cases "isFinalByte (data ! i)")
      case True
      with \<open>i < length data\<close> at show ?thesis by (simp add: skipCSI.simps [of data i])
    next
      case False
      from "1.IH" [OF \<open>i < length data\<close> at False] False \<open>i < length data\<close> at
      show ?thesis by (simp add: skipCSI.simps [of data i])
    qed
  qed
qed

lemma skipOSC_total: "\<exists>j. skipOSC data i = Some j"
proof (induction data i rule: skipOSC.induct)
  case (1 data i)
  show ?case
  proof (cases "i < length data")
    case False
    then show ?thesis by (simp add: skipOSC.simps [of data i])
  next
    case True
    then have at: "byteAt data i = Some (data ! i)" by (simp add: byteAt_def)
    show ?thesis
    proof (cases "data ! i = 0x07")
      case True
      with \<open>i < length data\<close> at show ?thesis by (simp add: skipOSC.simps [of data i])
    next
      case nb: False
      show ?thesis
      proof (cases "data ! i = 0x1B \<and> i + 1 < length data")
        case esc: True
        then have at1: "byteAt data (i + 1) = Some (data ! (i + 1))" by (simp add: byteAt_def)
        show ?thesis
        proof (cases "data ! (i + 1) = 0x5C")
          case True
          with \<open>i < length data\<close> at at1 nb esc show ?thesis
            by (simp add: skipOSC.simps [of data i])
        next
          case False
          from "1.IH"(1) [OF \<open>i < length data\<close> at nb esc at1 False]
               \<open>i < length data\<close> at at1 nb esc False
          show ?thesis by (simp add: skipOSC.simps [of data i])
        qed
      next
        case False
        from "1.IH"(2) [OF \<open>i < length data\<close> at nb False] \<open>i < length data\<close> at nb False
        show ?thesis by (auto simp add: skipOSC.simps [of data i] simp del: One_nat_def)
      qed
    qed
  qed
qed

lemma scanFrom_total: "\<exists>r. scanFrom data i = Some r"
proof (induction data i rule: scanFrom.induct)
  case (1 data i)
  show ?case
  proof (cases "i < length data")
    case False
    then show ?thesis by (auto simp add: scanFrom.simps [of data i])
  next
    case lt: True
    then have at: "byteAt data i = Some (data ! i)" by (simp add: byteAt_def)
    show ?thesis
    proof (cases "data ! i = 0x1B")
      case esc: True
      show ?thesis
      proof (cases "i + 1 < length data")
        case lt1: True
        then have at1: "byteAt data (i + 1) = Some (data ! (i + 1))" by (simp add: byteAt_def)
        show ?thesis
        proof (cases "data ! (i + 1) = 0x5B")
          case csi: True
          obtain j where j: "skipCSI data (i + 2) = Some j" using skipCSI_total by blast
          from "1.IH"(1) [OF lt at esc lt1 at1 csi j] lt at esc lt1 at1 csi j
          show ?thesis by (auto simp add: scanFrom.simps [of data i])
        next
          case ncsi: False
          show ?thesis
          proof (cases "data ! (i + 1) = 0x5D")
            case osc: True
            obtain j where j: "skipOSC data (i + 2) = Some j" using skipOSC_total by blast
            from "1.IH"(2) [OF lt at esc lt1 at1 ncsi osc j] lt at esc lt1 at1 ncsi osc j
            show ?thesis by (auto simp add: scanFrom.simps [of data i])
          next
            case nosc: False
            show ?thesis
            proof (cases "data ! (i + 1) = 0x28 \<or> data ! (i + 1) = 0x29")
              case cs: True
              from "1.IH"(3) [OF lt at esc lt1 at1 ncsi nosc cs] lt at esc lt1 at1 ncsi nosc cs
              show ?thesis by (auto simp add: scanFrom.simps [of data i] simp del: One_nat_def)
            next
              case ncs: False
              show ?thesis
              proof (cases "visibleByte (data ! i)")
                case True
                with lt at esc lt1 at1 ncsi nosc ncs show ?thesis
                  by (auto simp add: scanFrom.simps [of data i])
              next
                case nv: False
                from "1.IH"(4) [OF lt at esc lt1 at1 ncsi nosc ncs nv]
                     lt at esc lt1 at1 ncsi nosc ncs nv
                show ?thesis by (auto simp add: scanFrom.simps [of data i])
              qed
            qed
          qed
        qed
      next
        case nlt1: False
        show ?thesis
        proof (cases "visibleByte (data ! i)")
          case True
          with lt at esc nlt1 show ?thesis by (auto simp add: scanFrom.simps [of data i])
        next
          case nv: False
          from "1.IH"(5) [OF lt at esc nlt1 nv] lt at esc nlt1 nv
          show ?thesis by (auto simp add: scanFrom.simps [of data i])
        qed
      qed
    next
      case nesc: False
      show ?thesis
      proof (cases "data ! i = 0x9B")
        case c8: True
        obtain j where j: "skipCSI data (i + 1) = Some j" using skipCSI_total by blast
        from "1.IH"(6) [OF lt at nesc c8 j] lt at nesc c8 j
        show ?thesis by (auto simp add: scanFrom.simps [of data i])
      next
        case nc8: False
        show ?thesis
        proof (cases "visibleByte (data ! i)")
          case True
          with lt at nesc nc8 show ?thesis by (auto simp add: scanFrom.simps [of data i])
        next
          case nv: False
          from "1.IH"(7) [OF lt at nesc nc8 nv] lt at nesc nc8 nv
          show ?thesis by (auto simp add: scanFrom.simps [of data i])
        qed
      qed
    qed
  qed
qed

lemma drop_step: "i < length data \<Longrightarrow> drop i data = data ! i # drop (Suc i) data"
  by (simp add: Cons_nth_drop_Suc)

lemma skipCSI_drop:
  "\<exists>j. skipCSI data i = Some j \<and> drop j data = dropCSI (drop i data)"
proof (induction data i rule: skipCSI.induct)
  case (1 data i)
  show ?case
  proof (cases "i < length data")
    case False
    then show ?thesis by (simp add: skipCSI.simps [of data i])
  next
    case True
    then have at: "byteAt data i = Some (data ! i)" by (simp add: byteAt_def)
    show ?thesis
    proof (cases "isFinalByte (data ! i)")
      case True
      with \<open>i < length data\<close> at show ?thesis
        by (simp add: skipCSI.simps [of data i] drop_step [of i data])
    next
      case False
      from "1.IH" [OF \<open>i < length data\<close> at False] False \<open>i < length data\<close> at
      show ?thesis by (simp add: skipCSI.simps [of data i] drop_step [of i data])
    qed
  qed
qed

lemma skipOSC_drop:
  "\<exists>j. skipOSC data i = Some j \<and> drop j data = dropOSC (drop i data)"
proof (induction data i rule: skipOSC.induct)
  case (1 data i)
  show ?case
  proof (cases "i < length data")
    case False
    then show ?thesis by (simp add: skipOSC.simps [of data i])
  next
    case True
    then have at: "byteAt data i = Some (data ! i)" by (simp add: byteAt_def)
    note d = drop_step [OF True]
    show ?thesis
    proof (cases "data ! i = 0x07")
      case True
      with \<open>i < length data\<close> at show ?thesis by (simp add: skipOSC.simps [of data i] d)
    next
      case nb: False
      show ?thesis
      proof (cases "data ! i = 0x1B \<and> i + 1 < length data")
        case esc: True
        then have at1: "byteAt data (i + 1) = Some (data ! (i + 1))" by (simp add: byteAt_def)
        from esc have d1: "drop (Suc i) data = data ! (Suc i) # drop (Suc (Suc i)) data"
          using drop_step [of "Suc i" data] by simp
        show ?thesis
        proof (cases "data ! (i + 1) = 0x5C")
          case True
          with \<open>i < length data\<close> at at1 nb esc show ?thesis
            by (simp add: skipOSC.simps [of data i] d d1)
        next
          case False
          from "1.IH"(1) [OF \<open>i < length data\<close> at nb esc at1 False]
               \<open>i < length data\<close> at at1 nb esc False
          show ?thesis by (simp add: skipOSC.simps [of data i] d d1)
        qed
      next
        case False
        have nst: "\<not> (data ! i = 0x1B \<and> drop (Suc i) data \<noteq> [] \<and> hd (drop (Suc i) data) = 0x5C)"
          using False by (auto simp: hd_drop_conv_nth)
        from "1.IH"(2) [OF \<open>i < length data\<close> at nb False] \<open>i < length data\<close> at nb False nst
        show ?thesis by (auto simp add: skipOSC.simps [of data i] d)
      qed
    qed
  qed
qed

lemma scanFrom_visibleFrom: "scanFrom data i = Some (visibleFrom (drop i data))"
proof (induction data i rule: scanFrom.induct)
  case (1 data i)
  show ?case
  proof (cases "i < length data")
    case False
    then show ?thesis by (simp add: scanFrom.simps [of data i])
  next
    case lt: True
    then have at: "byteAt data i = Some (data ! i)" by (simp add: byteAt_def)
    note d = drop_step [OF lt]
    show ?thesis
    proof (cases "data ! i = 0x1B")
      case esc: True
      show ?thesis
      proof (cases "i + 1 < length data")
        case lt1: True
        then have at1: "byteAt data (i + 1) = Some (data ! (i + 1))" by (simp add: byteAt_def)
        from lt1 have d1: "drop (Suc i) data = data ! (Suc i) # drop (Suc (Suc i)) data"
          using drop_step [of "Suc i" data] by simp
        show ?thesis
        proof (cases "data ! (i + 1) = 0x5B")
          case csi: True
          obtain j where j: "skipCSI data (i + 2) = Some j"
            and dj: "drop j data = dropCSI (drop (i + 2) data)"
            using skipCSI_drop by blast
          from "1.IH"(1) [OF lt at esc lt1 at1 csi j] lt at esc lt1 at1 csi j dj
          show ?thesis by (simp add: scanFrom.simps [of data i] d d1 visibleFrom.simps(2))
        next
          case ncsi: False
          show ?thesis
          proof (cases "data ! (i + 1) = 0x5D")
            case osc: True
            obtain j where j: "skipOSC data (i + 2) = Some j"
              and dj: "drop j data = dropOSC (drop (i + 2) data)"
              using skipOSC_drop by blast
            from "1.IH"(2) [OF lt at esc lt1 at1 ncsi osc j] lt at esc lt1 at1 ncsi osc j dj
            show ?thesis by (simp add: scanFrom.simps [of data i] d d1 visibleFrom.simps(2))
          next
            case nosc: False
            show ?thesis
            proof (cases "data ! (i + 1) = 0x28 \<or> data ! (i + 1) = 0x29")
              case cs: True
              have dd: "drop (if i + 2 < length data then i + 3 else i + 2) data
                          = drop 1 (drop (Suc (Suc i)) data)"
                by (simp add: numeral_3_eq_3)
              from "1.IH"(3) [OF lt at esc lt1 at1 ncsi nosc cs] lt at esc lt1 at1 ncsi nosc cs
              show ?thesis
                unfolding dd
                by (auto simp add: scanFrom.simps [of data i] d d1 visibleFrom.simps(2))
            next
              case ncs: False
              have nv: "\<not> visibleByte (data ! i)" using esc by (simp add: visibleByte_def)
              from "1.IH"(4) [OF lt at esc lt1 at1 ncsi nosc ncs nv]
                   lt at esc lt1 at1 ncsi nosc ncs nv
              show ?thesis
                by (auto simp add: scanFrom.simps [of data i] d d1 visibleFrom.simps(2))
            qed
          qed
        qed
      next
        case nlt1: False
        have nv: "\<not> visibleByte (data ! i)" using esc by (simp add: visibleByte_def)
        from nlt1 lt have e: "drop (Suc i) data = []" by simp
        from "1.IH"(5) [OF lt at esc nlt1 nv] lt at esc nlt1 nv
        show ?thesis by (simp add: scanFrom.simps [of data i] d e visibleFrom.simps(2))
      qed
    next
      case nesc: False
      show ?thesis
      proof (cases "data ! i = 0x9B")
        case c8: True
        obtain j where j: "skipCSI data (i + 1) = Some j"
          and dj: "drop j data = dropCSI (drop (i + 1) data)"
          using skipCSI_drop by blast
        from "1.IH"(6) [OF lt at nesc c8 j] lt at nesc c8 j dj
        show ?thesis by (simp add: scanFrom.simps [of data i] d visibleFrom.simps(2))
      next
        case nc8: False
        show ?thesis
        proof (cases "visibleByte (data ! i)")
          case True
          with lt at nesc nc8 show ?thesis
            by (simp add: scanFrom.simps [of data i] d visibleFrom.simps(2))
        next
          case nv: False
          from "1.IH"(7) [OF lt at nesc nc8 nv] lt at nesc nc8 nv
          show ?thesis by (simp add: scanFrom.simps [of data i] d visibleFrom.simps(2))
        qed
      qed
    qed
  qed
qed

lemma containsVisibleContent_visibleFrom:
  "containsVisibleContent data = Some (visibleFrom data)"
  by (simp add: containsVisibleContent_def scanFrom_visibleFrom)


text \<open>
  C8. The scan \<open>containsVisibleContent\<close> is total on every byte slice, truncated
  escape sequences included: it is defined by recursion on an index that strictly
  increases towards \<open>length data\<close> (the termination proofs of \<open>skipCSI\<close>,
  \<open>skipOSC\<close> and \<open>scanFrom\<close>), it always returns a boolean and never takes the
  out-of-range branch of \<open>byteAt\<close>; the inner skipping loops only move the
  index forward and stop at the end of the slice at the latest.
\<close>

theorem containsVisibleContent_total:
  "(\<exists>r. containsVisibleContent data = Some r) \<and>
   (\<exists>j. skipCSI data i = Some j \<and> i \<le> j \<and> j \<le> max i (length data)) \<and>
   (\<exists>j. skipOSC data i = Some j \<and> i \<le> j \<and> j \<le> max i (length data))"
proof -
  obtain j where j: "skipCSI data i = Some j" using skipCSI_total by blast
  obtain k where k: "skipOSC data i = Some k" using skipOSC_total by blast
  from skipCSI_bounds [OF j] skipOSC_bounds [OF k] j k scanFrom_total [of data 0]
  show ?thesis by (simp add: containsVisibleContent_def)
qed

section \<open>What the classifier skips and what it reports\<close>

lemma csiTail_dropCSI: "csiTail s \<Longrightarrow> dropCSI (s @ r) = r"
  by (induction s) (auto split: if_splits)

lemma oscTail_dropOSC: "oscTail s \<Longrightarrow> dropOSC (s @ r) = r"
proof (induction s)
  case Nil
  then show ?case by simp
next
  case (Cons c cs)
  show ?case
  proof (cases "c = 0x07")
    case True
    with Cons.prems show ?thesis by simp
  next
    case nb: False
    show ?thesis
    proof (cases "c = 0x1B \<and> take 1 cs = [0x5C]")
      case True
      with nb Cons.prems have "cs = [0x5C]" by simp
      with nb True show ?thesis by simp
    next
      case False
      with nb Cons.prems have t: "oscTail cs" by simp
      then have ne: "cs \<noteq> []" by auto
      from False ne have "\<not> (c = 0x1B \<and> cs @ r \<noteq> [] \<and> hd (cs @ r) = 0x5C)"
        by (cases cs) auto
      with nb Cons.IH [OF t] show ?thesis by auto
    qed
  qed
qed

lemma take2_eq: "take 2 s = [a, b] \<Longrightarrow> s = a # b # drop 2 s"
  by (cases s; cases "tl s") (auto simp: numeral_2_eq_2)

lemma take1_eq: "take 1 s = [a] \<Longrightarrow> s = a # drop 1 s"
  by (cases s) auto

lemma visibleByte_9B: "visibleByte 0x9B"
  by (simp add: visibleByte_def)

lemma not_visibleByte_1B: "\<not> visibleByte 0x1B"
  by (simp add: visibleByte_def)

lemma recognizedSequence_skipped:
  assumes "recognizedSequence s"
  shows "visibleFrom (s @ r) = visibleFrom r"
proof -
  from assms consider
      (csi) "take 2 s = [0x1B, 0x5B]" "csiTail (drop 2 s)"
    | (osc) "take 2 s = [0x1B, 0x5D]" "oscTail (drop 2 s)"
    | (cs) "length s = 3" "take 2 s = [0x1B, 0x28] \<or> take 2 s = [0x1B, 0x29]"
    | (c8) "take 1 s = [0x9B]" "csiTail (drop 1 s)"
    unfolding recognizedSequence_def by blast
  then show ?thesis
  proof cases
    case csi
    from take2_eq [OF csi(1)] obtain t where s: "s = 0x1B # 0x5B # t" and t: "t = drop 2 s"
      by blast
    from csi(2) t have "csiTail t" by simp
    from csiTail_dropCSI [OF this, of r] show ?thesis
      by (simp add: s visibleFrom.simps(2))
  next
    case osc
    from take2_eq [OF osc(1)] obtain t where s: "s = 0x1B # 0x5D # t" and t: "t = drop 2 s"
      by blast
    from osc(2) t have "oscTail t" by simp
    from oscTail_dropOSC [OF this, of r] show ?thesis
      by (simp add: s visibleFrom.simps(2))
  next
    case cs
    then obtain c x where s: "s = [0x1B, c, x]" and c: "c = 0x28 \<or> c = 0x29"
      by (cases s; cases "tl s"; cases "tl (tl s)") (auto simp: numeral_2_eq_2)
    from c show ?thesis by (auto simp add: s visibleFrom.simps(2))
  next
    case c8
    from take1_eq [OF c8(1)] obtain t where s: "s = 0x9B # t" and t: "t = drop 1 s"
      by blast
    from c8(2) t have "csiTail t" by simp
    from csiTail_dropCSI [OF this, of r] show ?thesis
      by (simp add: s visibleFrom.simps(2))
  qed
qed

lemma skippedToken_skipped:
  assumes "skippedToken t"
  shows "visibleFrom (t @ r) = visibleFrom r"
proof -
  from assms consider
      (seq) "recognizedSequence t"
    | (ctl) "length t = 1" "\<not> visibleByte (hd t)" "hd t \<noteq> 0x1B"
    | (esc2) "length t = 2" "hd t = 0x1B"
        "0x30 \<le> t ! 1" "t ! 1 \<le> 0x7E" "t ! 1 \<noteq> 0x5B" "t ! 1 \<noteq> 0x5D"
    unfolding skippedToken_def by blast
  then show ?thesis
  proof cases
    case seq
    then show ?thesis by (rule recognizedSequence_skipped)
  next
    case ctl
    then obtain b where t: "t = [b]" by (cases t) auto
    from ctl t have "\<not> visibleByte b" "b \<noteq> 0x1B" by auto
    moreover from this visibleByte_9B have "b \<noteq> 0x9B" by auto
    ultimately show ?thesis by (simp add: t visibleFrom.simps(2))
  next
    case esc2
    then obtain x where t: "t = [0x1B, x]" by (cases t; cases "tl t") auto
    from esc2 t have x: "0x30 \<le> x" "x \<noteq> 0x5B" "x \<noteq> 0x5D" by auto
    from x(1) have "x \<noteq> 0x28" "x \<noteq> 0x29" by auto
    with x t show ?thesis by (simp add: visibleFrom.simps(2))
  qed
qed

lemma skippedTokens_skipped:
  "list_all skippedToken toks \<Longrightarrow> visibleFrom (concat toks @ r) = visibleFrom r"
  by (induction toks) (auto simp: skippedToken_skipped)

lemma visibleFrom_visible:
  assumes "visibleByte b" "b \<noteq> 0x9B"
  shows "visibleFrom (b # post)"
proof -
  from assms(1) not_visibleByte_1B have "b \<noteq> 0x1B" by auto
  with assms show ?thesis by (simp add: visibleFrom.simps(2))
qed

text \<open>
  C5 (as the code has it). For every byte slice that is a concatenation of skipped
  tokens, that is of recognised sequences (CSI \<open>ESC [ ... final\<close>, OSC
  \<open>ESC ] ... BEL | ESC \\\<close>, \<open>ESC ( x\<close>, \<open>ESC ) x\<close>, 8-bit CSI \<open>0x9B ... final\<close>),
  of two-byte escape sequences \<open>ESC x\<close> with a final byte \<open>x\<close> in
  \<open>0x30..0x7E\<close> other than \<open>[\<close> and \<open>]\<close>, and of single bytes that are not
  visible and not \<open>ESC\<close>, the classifier returns false, also when a lone
  \<open>ESC\<close> ends the slice; and it returns true as soon as such a concatenation is
  followed by a visible byte (printable ASCII, newline, carriage return, tab, or a
  byte \<open>\<ge> 0x80\<close> other than the CSI introducer \<open>0x9B\<close>), whatever comes after.
  Nothing is stated about an \<open>ESC\<close> that is followed by a byte outside
  \<open>0x30..0x7E\<close> and \<open>( )\<close>.
\<close>

theorem containsVisibleContent_classifies:
  "list_all skippedToken toks \<Longrightarrow>
     containsVisibleContent (concat toks) = Some False \<and>
     containsVisibleContent (concat toks @ [0x1B]) = Some False \<and>
     (visibleByte b \<and> b \<noteq> 0x9B \<longrightarrow>
        containsVisibleContent (concat toks @ b # post) = Some True)"
proof -
  assume toks: "list_all skippedToken toks"
  have "visibleFrom (concat toks @ []) = visibleFrom []"
    using toks by (rule skippedTokens_skipped)
  then have a: "containsVisibleContent (concat toks) = Some False"
    by (simp add: containsVisibleContent_visibleFrom)
  have "visibleFrom (concat toks @ [0x1B]) = visibleFrom [0x1B]"
    using toks by (rule skippedTokens_skipped)
  then have b: "containsVisibleContent (concat toks @ [0x1B]) = Some False"
    by (simp add: containsVisibleContent_visibleFrom visibleFrom.simps(2))
  have c: "containsVisibleContent (concat toks @ b # post) = Some True"
    if "visibleByte b" "b \<noteq> 0x9B"
  proof -
    have "visibleFrom (concat toks @ b # post) = visibleFrom (b # post)"
      using toks by (rule skippedTokens_skipped)
    with visibleFrom_visible [OF that] show ?thesis
      by (simp add: containsVisibleContent_visibleFrom)
  qed
  from a b c show ?thesis by blast
qed

theorem containsVisibleContent_classifies_witness:
  "list_all skippedToken [[0x1B, 0x5B, 0x33, 0x31, 0x6D], [0x07], [0x1B, 0x63],
                           [0x1B, 0x5D, 0x30, 0x3B, 0x54, 0x07], [0x9B, 0x4B]] \<and>
   skippedToken [0x1B, 0x37] \<and> \<not> skippedToken [0x1B, 0x0A] \<and>
   \<not> skippedToken [0x1B, 0x1B] \<and>
   containsVisibleContent
     [0x1B, 0x5B, 0x33, 0x31, 0x6D, 0x07, 0x1B, 0x63,
      0x1B, 0x5D, 0x30, 0x3B, 0x54, 0x07, 0x9B, 0x4B] = Some False \<and>
   visibleByte 0x52 \<and> (0x52 :: byte) \<noteq> 0x9B \<and>
   containsVisibleContent
     [0x1B, 0x5B, 0x33, 0x31, 0x6D, 0x07, 0x1B, 0x63,
      0x1B, 0x5D, 0x30, 0x3B, 0x54, 0x07, 0x9B, 0x4B, 0x52, 0x1B] = Some True"
  using containsVisibleContent_classifies
          [of "[[0x1B, 0x5B, 0x33, 0x31, 0x6D], [0x07], [0x1B, 0x63],
                [0x1B, 0x5D, 0x30, 0x3B, 0x54, 0x07], [0x9B, 0x4B]]" "0x52" "[0x1B]"]
  by (simp add: skippedToken_def recognizedSequence_def isFinalByte_def visibleByte_def)

text \<open>
  C5 as the specification words it fails on two-byte escape sequences, which are
  not among the four kinds it lists. In the slice \<open>ESC c\<close> (reset terminal, an
  entry of the detector's own \<open>screenClearSequences\<close>) the printable byte
  \<open>c\<close> lies in no recognised sequence, no part of the slice being one, yet the
  classifier returns false; likewise for \<open>ESC 7\<close> (save cursor).
\<close>

theorem containsVisibleContent_spec_counterexample:
  "visibleByte 0x63 \<and>
   \<not> recognizedSequence [0x1B] \<and> \<not> recognizedSequence [0x63] \<and>
   \<not> recognizedSequence [0x1B, 0x63] \<and>
   [0x1B, 0x63] \<in> set screenClearSequences \<and>
   containsVisibleContent [0x1B, 0x63] = Some False \<and>
   visibleByte 0x37 \<and> \<not> recognizedSequence [0x37] \<and>
   \<not> recognizedSequence [0x1B, 0x37] \<and>
   containsVisibleContent [0x1B, 0x37] = Some False"
proof -
  have "containsVisibleContent [0x1B, 0x63] = Some False" by code_simp
  moreover have "containsVisibleContent [0x1B, 0x37] = Some False" by code_simp
  ultimately show ?thesis
    by (simp add: recognizedSequence_def isFinalByte_def visibleByte_def
          screenClearSequences_def)
qed

section \<open>Properties of the terminal sequence detector\<close>

lemma buffer_DetectSequences:
  "buffer (snd (DetectSequences data False t))
     = drop (length (buffer t @ data) - maxBufferSize) (buffer t @ data)"
  by (simp add: DetectSequences_def Let_def)

lemma events_DetectSequences:
  "fst (DetectSequences data False t) = handlerCalls (buffer t @ data)"
  by (simp add: DetectSequences_def Let_def)

lemma tail_of_tail:
  "drop (length (drop (length xs - n) xs @ ys) - n) (drop (length xs - n) xs @ ys)
     = drop (length (xs @ ys) - n) (xs @ ys)"
proof (cases "length xs \<le> n")
  case True
  then show ?thesis by simp
next
  case False
  then have "length xs - n + length ys = length xs + length ys - n" by simp
  with False show ?thesis by (simp add: ac_simps)
qed

lemma buffer_detectAll:
  "length (buffer t) \<le> maxBufferSize \<Longrightarrow>
     buffer (snd (detectAll cs t))
       = drop (length (buffer t @ concat cs) - maxBufferSize) (buffer t @ concat cs)"
proof (induction cs arbitrary: t)
  case Nil
  then show ?case by simp
next
  case (Cons c cs)
  let ?t1 = "snd (DetectSequences c False t)"
  have b1: "buffer ?t1 = drop (length (buffer t @ c) - maxBufferSize) (buffer t @ c)"
    by (rule buffer_DetectSequences)
  then have le: "length (buffer ?t1) \<le> maxBufferSize" by simp
  have "buffer (snd (detectAll (c # cs) t)) = buffer (snd (detectAll cs ?t1))"
    by (simp add: Let_def split: prod.splits)
  also have "\<dots> = drop (length (buffer ?t1 @ concat cs) - maxBufferSize)
                      (buffer ?t1 @ concat cs)"
    using le by (rule Cons.IH)
  also have "\<dots> = drop (length ((buffer t @ c) @ concat cs) - maxBufferSize)
                      ((buffer t @ c) @ concat cs)"
    unfolding b1 by (rule tail_of_tail)
  finally show ?case by simp
qed

lemma detectAll_snoc:
  "detectAll (cs @ [c]) t =
     (fst (detectAll cs t) @ fst (DetectSequences c False (snd (detectAll cs t))),
      snd (DetectSequences c False (snd (detectAll cs t))))"
  by (induction cs arbitrary: t) (simp_all add: Let_def split: prod.splits)

text \<open>
  C7. After every call of \<open>DetectSequences\<close> with a handler the buffer holds at
  most 512 bytes, whatever it held before (a call with a \<open>nil\<close> handler leaves
  it as it was); and after any number of calls on a new detector the buffer is
  the concatenation of all chunks with everything but its last 512 bytes dropped:
  the whole stream while it has at most 512 bytes, exactly its most recent 512
  bytes once it has more.
\<close>

theorem detector_buffer_bounded_tail:
  "maxBufferSize = 512 \<and>
   length (buffer (snd (DetectSequences data False t))) \<le> maxBufferSize \<and>
   buffer (snd (DetectSequences data True t)) = buffer t \<and>
   length (buffer (snd (detectAll chunks NewTerminalSequenceDetector))) \<le> maxBufferSize \<and>
   buffer (snd (detectAll chunks NewTerminalSequenceDetector))
     = drop (length (concat chunks) - maxBufferSize) (concat chunks)"
proof -
  have a: "length (buffer (snd (DetectSequences data False t))) \<le> maxBufferSize"
    by (simp add: buffer_DetectSequences)
  have b: "buffer (snd (DetectSequences data True t)) = buffer t"
    by (simp add: DetectSequences_def)
  have "length (buffer NewTerminalSequenceDetector) \<le> maxBufferSize"
    by (simp add: NewTerminalSequenceDetector_def)
  from buffer_detectAll [OF this, of chunks]
  have c: "buffer (snd (detectAll chunks NewTerminalSequenceDetector))
             = drop (length (concat chunks) - maxBufferSize) (concat chunks)"
    by (simp add: NewTerminalSequenceDetector_def)
  then have d: "length (buffer (snd (detectAll chunks NewTerminalSequenceDetector)))
                  \<le> maxBufferSize"
    by simp
  from a b c d show ?thesis by (simp add: maxBufferSize_def)
qed

text \<open>
  C6 (as the code has it). When the chunks before the last one total at most 512
  bytes and make no handler call by themselves, as when a recognised sequence and
  the bytes before it are cut anywhere short of the byte that completes the
  first match, the calls on a new detector make exactly the handler calls that a
  single call with the concatenation makes: the last call sees the whole
  concatenation in the buffer.
\<close>

theorem split_chunks_same_events:
  "length (concat cs) \<le> maxBufferSize \<Longrightarrow>
   fst (detectAll cs NewTerminalSequenceDetector) = [] \<Longrightarrow>
     fst (detectAll (cs @ [c]) NewTerminalSequenceDetector)
       = fst (DetectSequences (concat (cs @ [c])) False NewTerminalSequenceDetector)"
proof -
  assume len: "length (concat cs) \<le> maxBufferSize"
    and quiet: "fst (detectAll cs NewTerminalSequenceDetector) = []"
  have "length (buffer NewTerminalSequenceDetector) \<le> maxBufferSize"
    by (simp add: NewTerminalSequenceDetector_def)
  from buffer_detectAll [OF this, of cs] len
  have buf: "buffer (snd (detectAll cs NewTerminalSequenceDetector)) = concat cs"
    by (simp add: NewTerminalSequenceDetector_def)
  have "fst (detectAll (cs @ [c]) NewTerminalSequenceDetector)
          = handlerCalls (concat cs @ c)"
    by (simp add: detectAll_snoc quiet events_DetectSequences buf)
  also have "\<dots> = fst (DetectSequences (concat (cs @ [c])) False NewTerminalSequenceDetector)"
    by (simp add: events_DetectSequences NewTerminalSequenceDetector_def)
  finally show ?thesis .
qed

theorem split_chunks_same_events_witness:
  "length (concat [[0x1B, 0x5B, 0x32 :: byte]]) \<le> maxBufferSize \<and>
   fst (detectAll [[0x1B, 0x5B, 0x32]] NewTerminalSequenceDetector) = [] \<and>
   fst (detectAll [[0x1B, 0x5B, 0x32], [0x4A]] NewTerminalSequenceDetector) = [ScreenClear] \<and>
   fst (DetectSequences [0x1B, 0x5B, 0x32, 0x4A] False NewTerminalSequenceDetector)
     = [ScreenClear]"
proof -
  have h1: "length (concat [[0x1B, 0x5B, 0x32 :: byte]]) \<le> maxBufferSize"
    by (simp add: maxBufferSize_def)
  have h2: "fst (detectAll [[0x1B, 0x5B, 0x32]] NewTerminalSequenceDetector) = []"
    by code_simp
  have r: "fst (DetectSequences [0x1B, 0x5B, 0x32, 0x4A] False NewTerminalSequenceDetector)
             = [ScreenClear]"
    by code_simp
  from split_chunks_same_events [OF h1 h2, of "[0x4A]"] r h1 h2 show ?thesis by simp
qed

text \<open>
  C6 as the specification words it fails. The chunks \<open>start ESC\<close>,
  \<open>[2J ESC [\<close>, \<open>3J ESC [ H\<close> of the repository's own test make two
  screen-clear calls, one in the second call and one in the third, where the
  concatenation in one call makes one; a detector call reports at most one
  screen clear, for all that its buffer holds.
\<close>

theorem split_chunks_more_events:
  "fst (detectAll [[0x73, 0x74, 0x61, 0x72, 0x74, 0x1B],
                   [0x5B, 0x32, 0x4A, 0x1B, 0x5B],
                   [0x33, 0x4A, 0x1B, 0x5B, 0x48]] NewTerminalSequenceDetector)
     = [ScreenClear, ScreenClear] \<and>
   fst (detectAll [[0x73, 0x74, 0x61, 0x72, 0x74, 0x1B,
                    0x5B, 0x32, 0x4A, 0x1B, 0x5B,
                    0x33, 0x4A, 0x1B, 0x5B, 0x48]] NewTerminalSequenceDetector)
     = [ScreenClear]"
proof -
  have "fst (detectAll [[0x73, 0x74, 0x61, 0x72, 0x74, 0x1B],
                   [0x5B, 0x32, 0x4A, 0x1B, 0x5B],
                   [0x33, 0x4A, 0x1B, 0x5B, 0x48]] NewTerminalSequenceDetector)
     = [ScreenClear, ScreenClear]"
    by code_simp
  moreover have "fst (detectAll [[0x73, 0x74, 0x61, 0x72, 0x74, 0x1B,
                    0x5B, 0x32, 0x4A, 0x1B, 0x5B,
                    0x33, 0x4A, 0x1B, 0x5B, 0x48]] NewTerminalSequenceDetector)
     = [ScreenClear]"
    by code_simp
  ultimately show ?thesis by simp
qed

section \<open>Properties of the backstop notification engine\<close>

lemma timeout_step [simp]: "timeout (step ev bn) = timeout bn"
  by (cases ev)
     (simp_all add: Send_def MarkActivity_def sendBackstopNotification_def SetBackstopSent_def
        ResetSession_def DisableBackstopTimer_def Close_def)

lemma timeout_run [simp]: "timeout (run evs bn) = timeout bn"
  by (induction evs arbitrary: bn) simp_all

lemma deliveredBy_le_1: "deliveredBy ev bn \<le> 1"
  by (cases ev)
     (simp_all add: deliveredBy_def Send_def MarkActivity_def sendBackstopNotification_def
        SetBackstopSent_def ResetSession_def DisableBackstopTimer_def Close_def)

lemma idle_blocks_delivery:
  "idleNotificationSentSinceLastInteraction bn \<Longrightarrow> deliveredBy (EvTimerFire now) bn = 0"
  by (simp add: deliveredBy_def sendBackstopNotification_def)

lemma delivery_sets_idle:
  "deliveredBy (EvTimerFire now) bn \<noteq> 0 \<Longrightarrow>
     idleNotificationSentSinceLastInteraction (step (EvTimerFire now) bn)"
  by (simp add: deliveredBy_def sendBackstopNotification_def split: if_splits)

lemma idle_kept:
  "idleNotificationSentSinceLastInteraction bn \<Longrightarrow>
   \<not> isUserInteraction ev \<Longrightarrow> \<not> isSessionReset ev \<Longrightarrow>
     idleNotificationSentSinceLastInteraction (step ev bn)"
  by (cases ev)
     (simp_all add: Send_def MarkActivity_def sendBackstopNotification_def SetBackstopSent_def
        Close_def)

lemma no_delivery_while_idle:
  "idleNotificationSentSinceLastInteraction bn \<Longrightarrow> list_all quietEvent evs \<Longrightarrow>
     backstopDeliveries evs bn = 0"
proof (induction evs arbitrary: bn)
  case Nil
  then show ?case by simp
next
  case (Cons ev evs)
  from Cons.prems have rest: "list_all quietEvent evs" and "quietEvent ev"
    by simp_all
  then have q: "\<not> isUserInteraction ev" "\<not> isSessionReset ev"
    by (simp_all add: quietEvent_def)
  from idle_kept [OF Cons.prems(1) q]
  have "backstopDeliveries evs (step ev bn) = 0" using rest by (rule Cons.IH)
  moreover have "(if isTimerFire ev then deliveredBy ev bn else 0) = 0"
    using idle_blocks_delivery [OF Cons.prems(1)] by (cases ev) simp_all
  ultimately show ?case by simp
qed

lemma at_most_one_delivery:
  "list_all quietEvent evs \<Longrightarrow> backstopDeliveries evs bn \<le> 1"
proof (induction evs arbitrary: bn)
  case Nil
  then show ?case by simp
next
  case (Cons ev evs)
  from Cons.prems have rest: "list_all quietEvent evs" by simp
  show ?case
  proof (cases "isTimerFire ev \<and> deliveredBy ev bn \<noteq> 0")
    case True
    then obtain now where ev: "ev = EvTimerFire now" by (cases ev) simp_all
    from True ev have "idleNotificationSentSinceLastInteraction (step ev bn)"
      using delivery_sets_idle by blast
    then have "backstopDeliveries evs (step ev bn) = 0"
      using rest by (rule no_delivery_while_idle)
    with deliveredBy_le_1 [of ev bn] show ?thesis by simp
  next
    case False
    then have "(if isTimerFire ev then deliveredBy ev bn else 0) = 0" by auto
    with Cons.IH [OF rest, of "step ev bn"] show ?thesis by simp
  qed
qed

text \<open>
  C1 (as the code has it). In every run of engine events that contains neither a
  User Interaction (\<open>DisableBackstopTimer\<close>) nor a Session Reset
  (\<open>ResetSession\<close>), whatever the state it starts in, so in particular between
  two consecutive events of these two kinds and from construction to the first of
  them, the timer callbacks deliver at most one notification.
\<close>

theorem backstop_at_most_one_per_window:
  "list_all quietEvent evs \<Longrightarrow> backstopDeliveries evs bn \<le> 1"
  by (rule at_most_one_delivery)

theorem backstop_at_most_one_per_window_witness:
  "list_all quietEvent
     [EvTimerFire 30, EvMarkActivity 40, EvTimerFire 70, EvSetBackstopSent True,
      EvSend 80 \<lparr>Title = ''t'', Message = ''m'', Time = 80, Pattern = ''p''\<rparr>,
      EvTimerFire 110, EvClose] \<and>
   backstopDeliveries
     [EvTimerFire 30, EvMarkActivity 40, EvTimerFire 70, EvSetBackstopSent True,
      EvSend 80 \<lparr>Title = ''t'', Message = ''m'', Time = 80, Pattern = ''p''\<rparr>,
      EvTimerFire 110, EvClose]
     (NewBackstopNotifier [] 30 0) \<le> 1"
  using backstop_at_most_one_per_window
          [of "[EvTimerFire 30, EvMarkActivity 40, EvTimerFire 70, EvSetBackstopSent True,
                EvSend 80 \<lparr>Title = ''t'', Message = ''m'', Time = 80, Pattern = ''p''\<rparr>,
                EvTimerFire 110, EvClose]" "NewBackstopNotifier [] 30 0"]
  by (simp add: quietEvent_def)

text \<open>
  C1 as the specification words it, with session resets among the events between
  two user interactions, fails: with a timeout of 30 the timer is due at 30 and
  delivers, the session reset at 31 arms a new timer, which is due at 61 and
  delivers again, and no user interaction has occurred.
\<close>

theorem backstop_two_deliveries_across_reset:
  "\<not> isUserInteraction (EvTimerFire 30) \<and> \<not> isUserInteraction (EvResetSession 31) \<and>
   \<not> isUserInteraction (EvTimerFire 61) \<and>
   timerDue 30 (NewBackstopNotifier [] 30 0) \<and>
   timerDue 61 (run [EvTimerFire 30, EvResetSession 31] (NewBackstopNotifier [] 30 0)) \<and>
   backstopDeliveries [EvTimerFire 30, EvResetSession 31, EvTimerFire 61]
     (NewBackstopNotifier [] 30 0) = 2"
  by (simp add: NewBackstopNotifier_def startTimer_def deliveredBy_def timerDue_def
        sendBackstopNotification_def ResetSession_def stopTimer_def AfterFunc_def)

text \<open>
  C2. Once a timer callback has delivered the backstop notification, no run of
  events without a User Interaction and without a Session Reset delivers a second
  one, however \<open>MarkActivity\<close> calls and timer callbacks interleave (and
  whatever sends, bells and closes occur among them); and after any such run a
  further \<open>MarkActivity\<close> at instant \<open>t\<close> leaves a pending timer with
  deadline \<open>t + timeout\<close>, when the timeout is positive.
\<close>

theorem no_second_backstop_after_activity:
  "deliveredBy (EvTimerFire t0) bn = 1 \<Longrightarrow> list_all quietEvent evs \<Longrightarrow>
     backstopDeliveries evs (step (EvTimerFire t0) bn) = 0 \<and>
     (0 < timeout bn \<longrightarrow>
        timer (step (EvMarkActivity t) (run evs (step (EvTimerFire t0) bn)))
          = Some \<lparr>deadline = t + timeout bn, pending = True\<rparr>)"
proof -
  assume d: "deliveredBy (EvTimerFire t0) bn = 1" and q: "list_all quietEvent evs"
  from d have "idleNotificationSentSinceLastInteraction (step (EvTimerFire t0) bn)"
    using delivery_sets_idle [of t0 bn] by simp
  then have "backstopDeliveries evs (step (EvTimerFire t0) bn) = 0"
    using q by (rule no_delivery_while_idle)
  moreover have "timeout (run evs (step (EvTimerFire t0) bn)) = timeout bn"
    by (simp only: timeout_run timeout_step)
  then have "0 < timeout bn \<longrightarrow>
        timer (step (EvMarkActivity t) (run evs (step (EvTimerFire t0) bn)))
          = Some \<lparr>deadline = t + timeout bn, pending = True\<rparr>"
    by (simp add: MarkActivity_def AfterFunc_def)
  ultimately show ?thesis by blast
qed

theorem no_second_backstop_after_activity_witness:
  "deliveredBy (EvTimerFire 30) (NewBackstopNotifier [] 30 0) = 1 \<and>
   list_all quietEvent [EvMarkActivity 40, EvTimerFire 70, EvMarkActivity 80, EvTimerFire 110] \<and>
   backstopDeliveries [EvMarkActivity 40, EvTimerFire 70, EvMarkActivity 80, EvTimerFire 110]
     (step (EvTimerFire 30) (NewBackstopNotifier [] 30 0)) = 0 \<and>
   0 < timeout (NewBackstopNotifier [] 30 0) \<and>
   timer (step (EvMarkActivity 120)
            (run [EvMarkActivity 40, EvTimerFire 70, EvMarkActivity 80, EvTimerFire 110]
               (step (EvTimerFire 30) (NewBackstopNotifier [] 30 0))))
     = Some \<lparr>deadline = 120 + timeout (NewBackstopNotifier [] 30 0), pending = True\<rparr>"
proof -
  have d: "deliveredBy (EvTimerFire 30) (NewBackstopNotifier [] 30 0) = 1"
    by (simp add: NewBackstopNotifier_def startTimer_def deliveredBy_def
          sendBackstopNotification_def stopTimer_def AfterFunc_def)
  have q: "list_all quietEvent
             [EvMarkActivity 40, EvTimerFire 70, EvMarkActivity 80, EvTimerFire 110]"
    by (simp add: quietEvent_def)
  have t: "0 < timeout (NewBackstopNotifier [] 30 0)"
    by (simp add: NewBackstopNotifier_def startTimer_def)
  from no_second_backstop_after_activity [OF d q, of 120] d q t show ?thesis by blast
qed


lemma sent_blocks_delivery:
  "backstopSent bn \<Longrightarrow> deliveredBy (EvTimerFire now) bn = 0"
  by (simp add: deliveredBy_def sendBackstopNotification_def)

lemma sent_kept:
  "backstopSent bn \<Longrightarrow> keepsBackstopSent ev \<Longrightarrow> backstopSent (step ev bn)"
  by (cases ev)
     (simp_all add: sendBackstopNotification_def SetBackstopSent_def DisableBackstopTimer_def
        Close_def)

lemma no_delivery_while_sent:
  "backstopSent bn \<Longrightarrow> list_all keepsBackstopSent evs \<Longrightarrow> backstopDeliveries evs bn = 0"
proof (induction evs arbitrary: bn)
  case Nil
  then show ?case by simp
next
  case (Cons ev evs)
  from Cons.prems have k: "keepsBackstopSent ev" and rest: "list_all keepsBackstopSent evs"
    by simp_all
  from sent_kept [OF Cons.prems(1) k]
  have "backstopDeliveries evs (step ev bn) = 0" using rest by (rule Cons.IH)
  moreover have "(if isTimerFire ev then deliveredBy ev bn else 0) = 0"
    using sent_blocks_delivery [OF Cons.prems(1)] by (cases ev) simp_all
  ultimately show ?case by simp
qed

text \<open>
  C4 (as the code has it). After a Bell Event (\<open>SetBackstopSent(true)\<close>) no run
  of timer callbacks, user interactions, further bells and closes delivers the
  backstop notification: the suppression lasts until the next \<open>MarkActivity\<close>,
  \<open>Send\<close>, \<open>SetBackstopSent(false)\<close> or \<open>ResetSession\<close>.
\<close>

theorem bell_suppresses_until_activity:
  "list_all keepsBackstopSent evs \<Longrightarrow>
     backstopDeliveries evs (step (EvSetBackstopSent True) bn) = 0"
proof -
  assume k: "list_all keepsBackstopSent evs"
  have "backstopSent (step (EvSetBackstopSent True) bn)"
    by (simp add: SetBackstopSent_def)
  then show ?thesis using k by (rule no_delivery_while_sent)
qed

theorem bell_suppresses_until_activity_witness:
  "list_all keepsBackstopSent
     [EvTimerFire 30, EvDisableBackstopTimer 40, EvSetBackstopSent True, EvTimerFire 50,
      EvClose] \<and>
   backstopDeliveries
     [EvTimerFire 30, EvDisableBackstopTimer 40, EvSetBackstopSent True, EvTimerFire 50,
      EvClose]
     (step (EvSetBackstopSent True) (NewBackstopNotifier [] 30 0)) = 0"
  using bell_suppresses_until_activity
          [of "[EvTimerFire 30, EvDisableBackstopTimer 40, EvSetBackstopSent True,
                EvTimerFire 50, EvClose]" "NewBackstopNotifier [] 30 0"]
  by simp

text \<open>
  C4 as the specification words it, for the remainder of the session, fails. The
  output chunk \<open>a BEL newline\<close> at 1 and the chunk \<open>b\<close> at 5 reach the
  engine as an activity mark, the bell's \<open>SetBackstopSent(true)\<close>, and another
  activity mark, which clears \<open>backstopSent\<close> and arms the timer; the timer is
  due at 35 and delivers, with no session reset in between.
\<close>

theorem backstop_delivered_after_bell:
  "map_option notifier
     (handleAll [(1, [0x61, 0x07, 0x0A]), (5, [0x62])]
        (NewOutputMonitor (BackstopN (NewBackstopNotifier [] 30 0)) 0))
     = Some (BackstopN (run [EvMarkActivity 1, EvSetBackstopSent True, EvMarkActivity 5]
                          (NewBackstopNotifier [] 30 0))) \<and>
   \<not> isSessionReset (EvMarkActivity 1) \<and> \<not> isSessionReset (EvSetBackstopSent True) \<and>
   \<not> isSessionReset (EvMarkActivity 5) \<and> \<not> isSessionReset (EvTimerFire 35) \<and>
   timerDue 35
     (run [EvMarkActivity 1, EvSetBackstopSent True, EvMarkActivity 5]
        (NewBackstopNotifier [] 30 0)) \<and>
   backstopDeliveries
     [EvMarkActivity 1, EvSetBackstopSent True, EvMarkActivity 5, EvTimerFire 35]
     (NewBackstopNotifier [] 30 0) = 1"
proof -
  have "map_option notifier
     (handleAll [(1, [0x61, 0x07, 0x0A]), (5, [0x62])]
        (NewOutputMonitor (BackstopN (NewBackstopNotifier [] 30 0)) 0))
     = Some (BackstopN (run [EvMarkActivity 1, EvSetBackstopSent True, EvMarkActivity 5]
                          (NewBackstopNotifier [] 30 0)))"
    by code_simp
  then show ?thesis
    by (simp add: NewBackstopNotifier_def startTimer_def deliveredBy_def timerDue_def
          sendBackstopNotification_def SetBackstopSent_def MarkActivity_def stopTimer_def
          AfterFunc_def)
qed

section \<open>Properties of the output monitor's line buffer\<close>

lemma slice_snoc:
  "start \<le> i \<Longrightarrow> i < length buf \<Longrightarrow> slice buf start (Suc i) = slice buf start i @ [buf ! i]"
proof -
  assume a: "start \<le> i" "i < length buf"
  then have "Suc i - start = Suc (i - start)" by simp
  moreover from a have "i - start < length (drop start buf)" by simp
  moreover from a have "drop start buf ! (i - start) = buf ! i" by simp
  ultimately show ?thesis
    unfolding slice_def by (simp add: take_Suc_conv_app_nth)
qed

lemma slice_drop:
  "start \<le> i \<Longrightarrow> i \<le> length buf \<Longrightarrow> slice buf start i @ drop i buf = drop start buf"
proof -
  assume a: "start \<le> i" "i \<le> length buf"
  have "drop (i - start) (drop start buf) = drop i buf" using a by simp
  then show ?thesis
    unfolding slice_def by (metis append_take_drop_id)
qed

lemma scanLines_done:
  "length buf \<le> i \<Longrightarrow> scanLines f buf start i s = (start, s)"
  by (subst scanLines.simps) simp

lemma scanLines_newline:
  "i < length buf \<Longrightarrow> buf ! i = 0x0A \<Longrightarrow>
     scanLines f buf start i s = scanLines f buf (Suc i) (Suc i) (f (slice buf start i) s)"
  by (subst scanLines.simps) simp

lemma scanLines_other:
  "i < length buf \<Longrightarrow> buf ! i \<noteq> 0x0A \<Longrightarrow>
     scanLines f buf start i s = scanLines f buf start (Suc i) s"
  by (subst scanLines.simps) simp

lemma scanLines_trace:
  "start \<le> i \<Longrightarrow> i \<le> length buf \<Longrightarrow> noNewline (slice buf start i) \<Longrightarrow>
     \<exists>st ls. scanLines logLine buf start i acc = (st, acc @ ls) \<and>
             scanLines f buf start i s = (st, fold f ls s) \<and>
             list_all noNewline ls \<and> noNewline (drop st buf) \<and>
             concat (map terminated ls) @ drop st buf = drop start buf"
proof (induction "length buf - i" arbitrary: start i acc s)
  case 0
  then have i: "i = length buf" by simp
  then have "scanLines logLine buf start i acc = (start, acc @ [])"
    and "scanLines f buf start i s = (start, fold f [] s)"
    by (simp_all add: scanLines_done)
  moreover from "0.prems"(3) i "0.prems"(1) have "noNewline (drop start buf)"
    by (simp add: slice_def)
  ultimately show ?case by (intro exI [of _ start] exI [of _ "[]"]) simp
next
  case (Suc n)
  then have lt: "i < length buf" by simp
  show ?case
  proof (cases "buf ! i = 0x0A")
    case True
    let ?line = "slice buf start i"
    have n: "n = length buf - Suc i" using Suc.hyps(2) by simp
    have e: "noNewline (slice buf (Suc i) (Suc i))" by (simp add: slice_def noNewline_def)
    from Suc.hyps(1) [OF n le_refl _ e, of "logLine ?line acc" "f ?line s"] lt
    obtain st ls where
      a: "scanLines logLine buf (Suc i) (Suc i) (logLine ?line acc) = (st, logLine ?line acc @ ls)"
      and b: "scanLines f buf (Suc i) (Suc i) (f ?line s) = (st, fold f ls (f ?line s))"
      and c: "list_all noNewline ls" "noNewline (drop st buf)"
      and d: "concat (map terminated ls) @ drop st buf = drop (Suc i) buf"
      by auto
    have "scanLines logLine buf start i acc = (st, acc @ (?line # ls))"
      using a by (simp add: scanLines_newline [OF lt True] logLine_def)
    moreover have "scanLines f buf start i s = (st, fold f (?line # ls) s)"
      using b by (simp add: scanLines_newline [OF lt True])
    moreover have "list_all noNewline (?line # ls)" using c(1) Suc.prems(3) by simp
    moreover have "concat (map terminated (?line # ls)) @ drop st buf = drop start buf"
    proof -
      have "drop i buf = buf ! i # drop (Suc i) buf" using lt by (simp add: Cons_nth_drop_Suc)
      with slice_drop [OF Suc.prems(1), of buf] lt True d show ?thesis
        by (simp add: terminated_def)
    qed
    ultimately show ?thesis using c(2) by blast
  next
    case False
    have n: "n = length buf - Suc i" using Suc.hyps(2) by simp
    have e: "noNewline (slice buf start (Suc i))"
      using slice_snoc [OF Suc.prems(1) lt] Suc.prems(3) False by (simp add: noNewline_def)
    from Suc.prems(1) have le: "start \<le> Suc i" by simp
    from Suc.hyps(1) [OF n le _ e, of acc s] lt
    obtain st ls where
      a: "scanLines logLine buf start (Suc i) acc = (st, acc @ ls)"
      and b: "scanLines f buf start (Suc i) s = (st, fold f ls s)"
      and c: "list_all noNewline ls" "noNewline (drop st buf)"
      and d: "concat (map terminated ls) @ drop st buf = drop start buf"
      by auto
    have "scanLines logLine buf start i acc = (st, acc @ ls)"
      using a by (simp add: scanLines_other [OF lt False])
    moreover have "scanLines f buf start i s = (st, fold f ls s)"
      using b by (simp add: scanLines_other [OF lt False])
    ultimately show ?thesis using c d by blast
  qed
qed

lemma scanLines_from_0:
  "\<exists>st ls. scanLines logLine buf 0 0 [] = (st, ls) \<and>
           scanLines f buf 0 0 s = (st, fold f ls s) \<and>
           list_all noNewline ls \<and> noNewline (drop st buf) \<and>
           concat (map terminated ls) @ drop st buf = buf"
proof -
  have "noNewline (slice buf 0 0)" by (simp add: slice_def noNewline_def)
  from scanLines_trace [OF le_refl _ this, of "[]" f s] show ?thesis by auto
qed


lemma linesPassed_single:
  "linesPassed [data] buf =
     (snd (scanLines logLine (buf @ data) 0 0 []),
      drop (fst (scanLines logLine (buf @ data) 0 0 [])) (buf @ data))"
  by (simp add: Let_def split: prod.splits)

lemma linesPassed_Cons:
  "linesPassed (data # chunks) buf =
     (fst (linesPassed [data] buf) @ fst (linesPassed chunks (snd (linesPassed [data] buf))),
      snd (linesPassed chunks (snd (linesPassed [data] buf))))"
  by (simp add: Let_def split: prod.splits)

lemma linesPassed_single_props:
  "list_all noNewline (fst (linesPassed [data] buf)) \<and>
   noNewline (snd (linesPassed [data] buf)) \<and>
   concat (map terminated (fst (linesPassed [data] buf))) @ snd (linesPassed [data] buf)
     = buf @ data"
proof -
  from scanLines_from_0 [of "buf @ data" logLine "[]"]
  obtain st ls where "scanLines logLine (buf @ data) 0 0 [] = (st, ls)"
    and "list_all noNewline ls" "noNewline (drop st (buf @ data))"
    and "concat (map terminated ls) @ drop st (buf @ data) = buf @ data"
    by blast
  then show ?thesis by (simp add: linesPassed_single)
qed

lemma linesPassed_join:
  "list_all noNewline (fst (linesPassed chunks buf)) \<and>
   concat (map terminated (fst (linesPassed chunks buf))) @ snd (linesPassed chunks buf)
     = buf @ concat chunks"
proof (induction chunks arbitrary: buf)
  case Nil
  then show ?case by simp
next
  case (Cons data chunks)
  let ?b = "snd (linesPassed [data] buf)"
  from linesPassed_single_props [of data buf] Cons.IH [of ?b]
  have "concat (map terminated (fst (linesPassed [data] buf))) @
          concat (map terminated (fst (linesPassed chunks ?b))) @ snd (linesPassed chunks ?b)
        = (buf @ data) @ concat chunks"
    by (metis append.assoc)
  with linesPassed_single_props [of data buf] Cons.IH [of ?b] show ?case
    by (simp add: linesPassed_Cons [of data chunks buf] del: linesPassed.simps)
qed

lemma linesPassed_rest_noNewline:
  "noNewline buf \<or> chunks \<noteq> [] \<Longrightarrow> noNewline (snd (linesPassed chunks buf))"
proof (induction chunks arbitrary: buf)
  case Nil
  then show ?case by simp
next
  case (Cons data chunks)
  from linesPassed_single_props [of data buf]
  have "noNewline (snd (linesPassed [data] buf))" by blast
  then have "noNewline (snd (linesPassed chunks (snd (linesPassed [data] buf))))"
    by (intro Cons.IH) simp
  then show ?case by (simp add: linesPassed_Cons [of data chunks buf] del: linesPassed.simps)
qed

lemma lineBuffer_handlerCall [simp]: "lineBuffer (handlerCall now h ev om) = lineBuffer om"
  by (cases h; cases ev)
     (simp_all add: HandleScreenClear_def HandleTitleChange_def HandleFocusIn_def
        HandleFocusOut_def split: notifier.splits)

lemma lineBuffer_fold_handlerCall [simp]:
  "lineBuffer (fold (handlerCall now h) evs om) = lineBuffer om"
  by (induction evs arbitrary: om) simp_all

lemma lineBuffer_detectStep [simp]: "lineBuffer (detectStep now data om) = lineBuffer om"
  by (simp add: detectStep_def split: option.splits prod.splits)

lemma lineBuffer_markActivity [simp]: "lineBuffer (markActivity now om) = lineBuffer om"
  by (simp add: markActivity_def split: notifier.splits)

lemma lineBuffer_processLine [simp]: "lineBuffer (processLine line om) = lineBuffer om"
  by (simp add: processLine_def split: notifier.splits)

lemma lineBuffer_fold_processLine [simp]:
  "lineBuffer (fold processLine ls om) = lineBuffer om"
  by (induction ls arbitrary: om) simp_all

lemma HandleData_lines:
  "HandleData now data om =
     Some ((fold processLine (fst (linesPassed [data] (lineBuffer om)))
              (beforeLineScan now data om))
             \<lparr>lineBuffer := snd (linesPassed [data] (lineBuffer om))\<rparr>)"
proof -
  let ?buf = "lineBuffer om @ data"
  let ?pre = "beforeLineScan now data om"
  have v: "containsVisibleContent data = Some (visibleFrom data)"
    by (rule containsVisibleContent_visibleFrom)
  from scanLines_from_0 [of ?buf processLine ?pre]
  obtain st ls where l: "scanLines logLine ?buf 0 0 [] = (st, ls)"
    and p: "scanLines processLine ?buf 0 0 ?pre = (st, fold processLine ls ?pre)"
    by blast
  have e: "lineBuffer (fold processLine ls ?pre) = []"
    by (simp add: beforeLineScan_def Let_def)
  have r: "(fold processLine ls ?pre)\<lparr>lineBuffer := []\<rparr> = fold processLine ls ?pre"
    using e by (metis OutputMonitor.surjective OutputMonitor.update_convs(3))
  have "HandleData now data om =
          Some (if st < length ?buf
                then (fold processLine ls ?pre)\<lparr>lineBuffer := drop st ?buf\<rparr>
                else fold processLine ls ?pre)"
    using p e unfolding HandleData_def beforeLineScan_def v Let_def
    by (cases "visibleFrom data") simp_all
  also have "\<dots> = Some ((fold processLine ls ?pre)\<lparr>lineBuffer := drop st ?buf\<rparr>)"
    using r by simp
  finally show ?thesis using l by (simp add: linesPassed_single)
qed

lemma handleAll_lineBuffer:
  "\<exists>om'. handleAll calls om = Some om' \<and>
         lineBuffer om' = snd (linesPassed (map snd calls) (lineBuffer om))"
proof (induction calls arbitrary: om)
  case Nil
  then show ?case by simp
next
  case (Cons c calls)
  obtain now data where c: "c = (now, data)" by (cases c)
  obtain om1 where h: "HandleData now data om = Some om1"
    and b: "lineBuffer om1 = snd (linesPassed [data] (lineBuffer om))"
    using HandleData_lines [of now data om] by simp
  from Cons.IH [of om1] obtain om' where "handleAll calls om1 = Some om'"
    and "lineBuffer om' = snd (linesPassed (map snd calls) (lineBuffer om1))"
    by blast
  with h b c show ?case
    by (simp add: linesPassed_Cons [of data "map snd calls" "lineBuffer om"]
          del: linesPassed.simps)
qed

lemma Flush_lines:
  "Flush om =
     (fold processLine (if lineBuffer om = [] then [] else [lineBuffer om]) om)
       \<lparr>lineBuffer := []\<rparr>"
proof (cases "lineBuffer om = []")
  case True
  then have "om\<lparr>lineBuffer := []\<rparr> = om"
    by (metis OutputMonitor.surjective OutputMonitor.update_convs(3))
  with True show ?thesis by (simp add: Flush_def)
next
  case False
  then show ?thesis by (simp add: Flush_def)
qed

lemma linesPassed_example:
  "linesPassed [[0x61, 0x0A, 0x62], [0x63, 0x0A, 0x0A, 0x64]] []
     = ([[0x61], [0x62, 0x63], []], [0x64])"
  by code_simp

text \<open>
  C10. Line buffering of the output monitor. A \<open>HandleData\<close> call always
  returns; it passes to \<open>processLine\<close>, in order and once each, exactly the lines
  \<open>fst (linesPassed [data] (lineBuffer om))\<close>, and leaves
  \<open>snd (linesPassed [data] (lineBuffer om))\<close> in the line buffer; over any
  sequence of calls the line buffer is the one \<open>linesPassed\<close> computes for the
  chunks. For every sequence of chunks and every starting buffer, the lines passed
  contain no newline, the buffer left after at least one call contains no newline,
  and the lines, each followed by a newline, followed by the buffer that is left,
  are exactly the starting buffer followed by all chunks: every completed line of
  the stream is passed once, and the buffer holds the bytes after the last
  newline. \<open>Flush\<close> passes the buffered partial line once, if there is one, and
  empties the buffer.
\<close>

theorem line_buffer_invariant:
  "HandleData now data om =
     Some ((fold processLine (fst (linesPassed [data] (lineBuffer om)))
              (beforeLineScan now data om))
             \<lparr>lineBuffer := snd (linesPassed [data] (lineBuffer om))\<rparr>) \<and>
   (\<exists>om'. handleAll calls om = Some om' \<and>
          lineBuffer om' = snd (linesPassed (map snd calls) (lineBuffer om))) \<and>
   list_all noNewline (fst (linesPassed chunks buf)) \<and>
   noNewline (snd (linesPassed (c # chunks) buf)) \<and>
   concat (map terminated (fst (linesPassed chunks buf))) @ snd (linesPassed chunks buf)
     = buf @ concat chunks \<and>
   Flush om =
     (fold processLine (if lineBuffer om = [] then [] else [lineBuffer om]) om)
       \<lparr>lineBuffer := []\<rparr> \<and>
   lineBuffer (Flush om) = []"
proof -
  have "noNewline (snd (linesPassed (c # chunks) buf))"
    by (rule linesPassed_rest_noNewline) simp
  moreover have "lineBuffer (Flush om) = []"
    by (simp add: Flush_lines)
  ultimately show ?thesis
    using HandleData_lines [of now data om] handleAll_lineBuffer [of calls om]
      linesPassed_join [of chunks buf] Flush_lines [of om]
    by blast
qed

end
